theory Spec2Isabelle
  imports Main "HOL-Library.Word" "HOL-Library.AList"
begin
unbundle bit_operations_syntax

section \<open>Values shared by the three source files\<close>

text \<open>
  A Node Buffer is a list of bytes. A JavaScript value that may be \<open>undefined\<close> (an array
  read out of range, a missing Map entry, an unassigned variable) is an \<open>option\<close> with
  \<open>None\<close> for \<open>undefined\<close>; in mnemonic.js, where the numbers are the values of bytes and
  \<open>NaN\<close>, a number is a \<open>nat option\<close> with \<open>None\<close> for \<open>NaN\<close>. Exceptions are values of
  type \<open>error\<close>.
\<close>

type_synonym byte = "8 word"
type_synonym buffer = "byte list"

datatype error = TypeError | RangeError | Error string

section \<open>Numbers\<close>

text \<open>
  A JavaScript number is an IEEE 754 double. \<open>Finite m e\<close> is the double of value
  \<open>m * 2 ^ e\<close>; every operation below returns it with \<open>m\<close> odd, and zero as \<open>Finite 0 0\<close>
  (the sign of zero is not kept: none of the operations used by these files tells \<open>-0\<close>
  from \<open>0\<close>). The doubles are the values with \<open>\<bar>m\<bar> < 2 ^ 53\<close>, \<open>-1074 \<le> e\<close> and
  \<open>\<bar>m\<bar> * 2 ^ e < 2 ^ 1024\<close>.

  \<open>roundDouble x e\<close> is the double nearest to \<open>x * 2 ^ e\<close>, for \<open>-1074 \<le> e\<close>: the 53 leading
  bits of \<open>x\<close> are kept, a tie goes to the even neighbour, and a result of \<open>2 ^ 1024\<close> or
  more is an infinity. \<open>jsAdd\<close> is \<open>+\<close> on numbers (the exact sum, rounded once), \<open>jsSub\<close>
  is \<open>-\<close>, \<open>jsGt\<close> is \<open>>\<close> and \<open>jsEq\<close> is \<open>===\<close>; a comparison with \<open>NaN\<close> is false.
  \<open>ofInt n\<close> is the number that the integer literal \<open>n\<close> denotes.
\<close>

datatype number = NaN | PosInfinity | NegInfinity | Finite int int

function bitLength :: "int \<Rightarrow> nat" where
  "bitLength n = (if n \<le> 0 then 0 else Suc (bitLength (n div 2)))"
  by pat_completeness auto
termination
  by (relation "measure nat") auto

function normalizeNum :: "int \<Rightarrow> int \<Rightarrow> number" where
  "normalizeNum m e =
     (if m = 0 then Finite 0 0 else if even m then normalizeNum (m div 2) (e + 1) else Finite m e)"
  by pat_completeness auto
termination
  by (relation "measure (\<lambda>(m, e). nat \<bar>m\<bar>)") auto

definition roundDouble :: "int \<Rightarrow> int \<Rightarrow> number" where
  "roundDouble x e =
     (let a = \<bar>x\<bar>;
          d = bitLength a - 53;
          q = a div 2 ^ d;
          r = a mod 2 ^ d;
          q = (if 2 * r > 2 ^ d \<or> (2 * r = 2 ^ d \<and> odd q) then q + 1 else q);
          e = e + int d
      in if e \<ge> 971 \<and> q * 2 ^ nat (e - 971) \<ge> 2 ^ 53
         then (if x < 0 then NegInfinity else PosInfinity)
         else normalizeNum (if x < 0 then - q else q) e)"

definition ofInt :: "int \<Rightarrow> number" where
  "ofInt n = roundDouble n 0"

fun jsAdd :: "number \<Rightarrow> number \<Rightarrow> number" where
  "jsAdd (Finite m1 e1) (Finite m2 e2) =
     (let e = min e1 e2 in roundDouble (m1 * 2 ^ nat (e1 - e) + m2 * 2 ^ nat (e2 - e)) e)"
| "jsAdd NaN _ = NaN"
| "jsAdd _ NaN = NaN"
| "jsAdd PosInfinity NegInfinity = NaN"
| "jsAdd NegInfinity PosInfinity = NaN"
| "jsAdd PosInfinity _ = PosInfinity"
| "jsAdd _ PosInfinity = PosInfinity"
| "jsAdd NegInfinity _ = NegInfinity"
| "jsAdd _ NegInfinity = NegInfinity"

fun jsNeg :: "number \<Rightarrow> number" where
  "jsNeg (Finite m e) = Finite (- m) e"
| "jsNeg NaN = NaN"
| "jsNeg PosInfinity = NegInfinity"
| "jsNeg NegInfinity = PosInfinity"

definition jsSub :: "number \<Rightarrow> number \<Rightarrow> number" where
  "jsSub x y = jsAdd x (jsNeg y)"

fun jsGt :: "number \<Rightarrow> number \<Rightarrow> bool" where
  "jsGt (Finite m1 e1) (Finite m2 e2) =
     (let e = min e1 e2 in m1 * 2 ^ nat (e1 - e) > m2 * 2 ^ nat (e2 - e))"
| "jsGt NaN _ = False"
| "jsGt _ NaN = False"
| "jsGt PosInfinity PosInfinity = False"
| "jsGt PosInfinity _ = True"
| "jsGt _ PosInfinity = False"
| "jsGt NegInfinity _ = False"
| "jsGt _ NegInfinity = True"

fun jsEq :: "number \<Rightarrow> number \<Rightarrow> bool" where
  "jsEq (Finite m1 e1) (Finite m2 e2) =
     (let e = min e1 e2 in m1 * 2 ^ nat (e1 - e) = m2 * 2 ^ nat (e2 - e))"
| "jsEq PosInfinity PosInfinity = True"
| "jsEq NegInfinity NegInfinity = True"
| "jsEq _ _ = False"

declare bitLength.simps [simp del]
declare normalizeNum.simps [simp del]

section \<open>mnemonic.js\<close>

definition NUM_BYTES :: nat where
  "NUM_BYTES = 32"

record mnemonic =
  wordlist :: "string list"
  seq :: buffer

subsection \<open>Static helpers\<close>

definition convertByteToBinString :: "byte \<Rightarrow> string" where
  "convertByteToBinString byte =
     (if byte AND 0x80 \<noteq> 0 then ''1'' else ''0'') @
     (if byte AND 0x40 \<noteq> 0 then ''1'' else ''0'') @
     (if byte AND 0x20 \<noteq> 0 then ''1'' else ''0'') @
     (if byte AND 0x10 \<noteq> 0 then ''1'' else ''0'') @
     (if byte AND 0x08 \<noteq> 0 then ''1'' else ''0'') @
     (if byte AND 0x04 \<noteq> 0 then ''1'' else ''0'') @
     (if byte AND 0x02 \<noteq> 0 then ''1'' else ''0'') @
     (if byte AND 0x01 \<noteq> 0 then ''1'' else ''0'')"

text \<open>
  \<open>parseInt(bs, 2)\<close> reads the longest prefix of binary digits and is \<open>NaN\<close> when that
  prefix is empty. (The strings it is given here are built from the characters 0 and 1
  only, so leading white space and signs do not occur.)
\<close>

definition isBinDigit :: "char \<Rightarrow> bool" where
  "isBinDigit c = (c = CHR ''0'' \<or> c = CHR ''1'')"

definition binValue :: "string \<Rightarrow> nat" where
  "binValue ds = foldl (\<lambda>acc c. 2 * acc + (if c = CHR ''1'' then 1 else 0)) 0 ds"

definition parseInt2 :: "string \<Rightarrow> nat option" where
  "parseInt2 s =
     (let ds = takeWhile isBinDigit s in if ds = [] then None else Some (binValue ds))"

definition convertBinStringToByte :: "string \<Rightarrow> nat option" where
  "convertBinStringToByte bs = parseInt2 bs"

text \<open>\<open>bitString.match(/.{11}/g)\<close>: the consecutive 11-character pieces; \<open>null\<close> when there is none.\<close>

function matchAll11 :: "string \<Rightarrow> string list" where
  "matchAll11 s = (if length s < 11 then [] else take 11 s # matchAll11 (drop 11 s))"
  by pat_completeness auto
termination
  by (relation "measure length") auto

definition match11 :: "string \<Rightarrow> string list option" where
  "match11 s = (case matchAll11 s of [] \<Rightarrow> None | ms \<Rightarrow> Some ms)"

text \<open>
  The loop of the \<open>map\<close> callback in \<open>split\<close>: \<open>bitPosVal\<close> starts at 1024 and is halved after
  each character. Every piece has 11 characters, so the halving stays in the integers
  for every value that is added.
\<close>

fun split_loop :: "nat \<Rightarrow> nat \<Rightarrow> string \<Rightarrow> nat" where
  "split_loop bitPosVal val [] = val"
| "split_loop bitPosVal val (c # bs) =
     split_loop (bitPosVal div 2) (if c = CHR ''1'' then val + bitPosVal else val) bs"

definition split :: "buffer \<Rightarrow> error + nat list" where
  "split sq =
     (let bitString = concat (map convertByteToBinString sq) in
      case match11 bitString of
        None \<Rightarrow> Inl TypeError
      | Some elevenBits \<Rightarrow> Inr (map (split_loop 1024 0) elevenBits))"

text \<open>
  \<open>translate11bit\<close>: the loop runs while \<open>bitPosVal >= 1\<close>; the last halving gives 0.5 in
  JavaScript and 0 here, and both end the loop.
\<close>

function translate11bit_loop :: "nat \<Rightarrow> nat \<Rightarrow> string \<Rightarrow> string" where
  "translate11bit_loop bitPosVal n bs =
     (if bitPosVal \<ge> 1 then
        (if n \<ge> bitPosVal then translate11bit_loop (bitPosVal div 2) (n - bitPosVal) (bs @ ''1'')
         else translate11bit_loop (bitPosVal div 2) n (bs @ ''0''))
      else bs)"
  by pat_completeness auto
termination
  by (relation "measure (\<lambda>(bitPosVal, n, bs). bitPosVal)") auto

definition translate11bit :: "nat \<Rightarrow> string" where
  "translate11bit n = translate11bit_loop 1024 n ''''"

subsection \<open>Buffer operations of Node used by the class\<close>

text \<open>
  \<open>buf.writeUInt8(value, offset)\<close> throws a range error for a value outside 0..255 or an
  offset outside the buffer; \<open>NaN\<close> passes both comparisons and is stored as 0.
\<close>

definition writeUInt8 :: "nat option \<Rightarrow> nat \<Rightarrow> buffer \<Rightarrow> error + buffer" where
  "writeUInt8 v offset buf =
     (case v of
        Some n \<Rightarrow>
          if n > 255 then Inl RangeError
          else if offset < length buf then Inr (buf[offset := of_nat n])
          else Inl RangeError
      | None \<Rightarrow>
          if offset < length buf then Inr (buf[offset := 0]) else Inl RangeError)"

definition readUInt8 :: "nat \<Rightarrow> buffer \<Rightarrow> error + byte" where
  "readUInt8 offset buf = (if offset < length buf then Inr (buf ! offset) else Inl RangeError)"

definition hexDigit :: "nat \<Rightarrow> char" where
  "hexDigit n = ''0123456789abcdef'' ! (n mod 16)"

definition byteToHex :: "byte \<Rightarrow> string" where
  "byteToHex b = [hexDigit (unat b div 16), hexDigit (unat b mod 16)]"

definition toHex :: "buffer \<Rightarrow> string" where
  "toHex buf = concat (map byteToHex buf)"

text \<open>\<open>crypto.randomFillSync\<close> overwrites every byte; \<open>rnd i\<close> is the random byte drawn for index \<open>i\<close>.\<close>

definition randomFillSync :: "(nat \<Rightarrow> byte) \<Rightarrow> buffer \<Rightarrow> buffer" where
  "randomFillSync rnd buf = map rnd [0..<length buf]"

subsection \<open>Methods\<close>

text \<open>
  \<open>calcChecksum\<close>. The parameter \<open>H\<close> is the SHA-256 digest of Node's \<open>crypto\<close> module, from
  the text that is hashed to the digest bytes. \<open>checksumInput\<close> is the text handed to it:
  \<open>this.seq.toString('hex').slice(0, NUM_BYTES)\<close>. The result \<open>h[0]\<close> is \<open>undefined\<close> for
  an empty digest.
\<close>

definition checksumInput :: "buffer \<Rightarrow> string" where
  "checksumInput sq = take NUM_BYTES (toHex sq)"

definition calcChecksum :: "(string \<Rightarrow> buffer) \<Rightarrow> mnemonic \<Rightarrow> byte option" where
  "calcChecksum H m =
     (let seqHex = checksumInput (seq m);
          h = H seqHex
      in case h of [] \<Rightarrow> None | b # _ \<Rightarrow> Some b)"

text \<open>The constructor: \<open>wl\<close> is \<open>bip39.wordlists.english\<close>, \<open>rnd\<close> the random bytes.\<close>

definition newMnemonic :: "(string \<Rightarrow> buffer) \<Rightarrow> string list \<Rightarrow> (nat \<Rightarrow> byte) \<Rightarrow> error + mnemonic" where
  "newMnemonic H wl rnd =
     (let m = \<lparr>wordlist = wl, seq = randomFillSync rnd (replicate (NUM_BYTES + 1) 0)\<rparr> in
      case writeUInt8 (map_option unat (calcChecksum H m)) NUM_BYTES (seq m) of
        Inl e \<Rightarrow> Inl e
      | Inr sq \<Rightarrow> Inr (m\<lparr>seq := sq\<rparr>))"

text \<open>\<open>this.wordlist[i]\<close> inside a string concatenation: out of range it reads as the text "undefined".\<close>

definition wordAt :: "string list \<Rightarrow> nat \<Rightarrow> string" where
  "wordAt wl i = (if i < length wl then wl ! i else ''undefined'')"

definition words :: "mnemonic \<Rightarrow> error + string" where
  "words m =
     (case split (seq m) of
        Inl e \<Rightarrow> Inl e
      | Inr arr \<Rightarrow>
          Inr (drop 1 (foldl (\<lambda>stringBuilder v. stringBuilder @ '' '' @ wordAt (wordlist m) v) '''' arr)))"

text \<open>\<open>words.split(' ')\<close>: the pieces between single spaces, empty pieces kept.\<close>

fun splitStr :: "char \<Rightarrow> string \<Rightarrow> string list" where
  "splitStr sep [] = [[]]"
| "splitStr sep (c # cs) =
     (if c = sep then [] # splitStr sep cs
      else (case splitStr sep cs of [] \<Rightarrow> [[c]] | w # ws \<Rightarrow> (c # w) # ws))"

text \<open>
  The two nested \<open>for ... in\<close> loops of \<open>calculateSequence\<close>: for one word, every index \<open>j\<close>
  of the word list whose entry equals the word appends \<open>translate11bit(j)\<close> (the index
  is a numeric string, which the comparisons and the subtraction of \<open>translate11bit\<close>
  read as a number). A word that is not in the list appends nothing.
\<close>

definition wordBits :: "string list \<Rightarrow> string \<Rightarrow> string" where
  "wordBits wl w =
     foldl (\<lambda>binString j. if w = wl ! j then binString @ translate11bit j else binString)
       '''' [0..<length wl]"

text \<open>
  The \<open>while (position !== NUM_BYTES + 1)\<close> loop. It is written as the source has it, so
  it is a partial function: \<open>None\<close> is a loop that never ends.
\<close>

partial_function (option) seq_loop :: "nat \<Rightarrow> string \<Rightarrow> buffer \<Rightarrow> (error + buffer) option" where
  "seq_loop position binString sq =
     (if position \<noteq> NUM_BYTES + 1 then
        (let temp = convertBinStringToByte (take 8 binString) in
         case writeUInt8 temp position sq of
           Inl e \<Rightarrow> Some (Inl e)
         | Inr sq' \<Rightarrow> seq_loop (position + 1) (drop 8 binString) sq')
      else Some (Inr sq))"

definition calculateSequence :: "mnemonic \<Rightarrow> string \<Rightarrow> (error + mnemonic) option" where
  "calculateSequence m ws =
     (let wordArray = splitStr CHR '' '' ws;
          sq = replicate (NUM_BYTES + 1) 0;
          binString = foldl (\<lambda>binString w. binString @ wordBits (wordlist m) w) '''' wordArray
      in case seq_loop 0 binString sq of
           None \<Rightarrow> None
         | Some (Inl e) \<Rightarrow> Some (Inl e)
         | Some (Inr sq') \<Rightarrow> Some (Inr (m\<lparr>seq := sq'\<rparr>)))"

definition isValid :: "(string \<Rightarrow> buffer) \<Rightarrow> mnemonic \<Rightarrow> error + bool" where
  "isValid H m =
     (let checksum = calcChecksum H m in
      case readUInt8 NUM_BYTES (seq m) of
        Inl e \<Rightarrow> Inl e
      | Inr stored \<Rightarrow> Inr (checksum = Some stored))"

declare translate11bit_loop.simps [simp del]
declare matchAll11.simps [simp del]

section \<open>utils.js\<close>

text \<open>
  The primitives of Node's \<open>crypto\<close> module are parameters, collected in the record
  \<open>crypto\<close>: the SHA-256 digest of a text, the base64 text of a buffer, and RSA-SHA256
  signing and verification, which throw on a key they cannot read. The record also
  holds \<open>numberToString\<close>, the decimal text that the language prints for a finite number
  (the shortest digits that read back as the same double, in exponent form from
  \<open>1e21\<close>), which \<open>JSON.stringify\<close> uses. \<open>utils.sign\<close> and
  \<open>utils.verifySignature\<close> are given a transaction id, which is a string, so the
  message is passed on as it is. A public key read out of range is \<open>undefined\<close>, and
  \<open>"" + key\<close> is then the text "undefined".
\<close>

datatype encoding = Hex | Base64

record crypto =
  sha256 :: "string \<Rightarrow> buffer"
  base64 :: "buffer \<Rightarrow> string"
  rsaSign :: "string \<Rightarrow> string \<Rightarrow> error + string"
  rsaVerify :: "string option \<Rightarrow> string \<Rightarrow> string \<Rightarrow> error + bool"
  numberToString :: "number \<Rightarrow> string"

definition hash :: "crypto \<Rightarrow> string \<Rightarrow> encoding \<Rightarrow> string" where
  "hash C s enc = (case enc of Hex \<Rightarrow> toHex (sha256 C s) | Base64 \<Rightarrow> base64 C (sha256 C s))"

definition toStr :: "string option \<Rightarrow> string" where
  "toStr v = (case v of None \<Rightarrow> ''undefined'' | Some s \<Rightarrow> s)"

definition calcAddress :: "crypto \<Rightarrow> string option \<Rightarrow> string" where
  "calcAddress C key = hash C (toStr key) Base64"

definition addressMatchesKey :: "crypto \<Rightarrow> string \<Rightarrow> string option \<Rightarrow> bool" where
  "addressMatchesKey C addr pubKey = (addr = calcAddress C pubKey)"

definition verifySignature :: "crypto \<Rightarrow> string option \<Rightarrow> string \<Rightarrow> string \<Rightarrow> error + bool" where
  "verifySignature C pubKey msg sg = rsaVerify C pubKey msg sg"

section \<open>JSON.stringify\<close>

text \<open>
  The JSON text of the values that a transaction id is made of: a finite number is
  printed by \<open>num\<close> (the \<open>numberToString\<close> of the runtime), \<open>NaN\<close> and the infinities are
  printed as \<open>null\<close>, strings are quoted with the escapes of \<open>JSON.stringify\<close>, and the
  members of an object keep their order.
\<close>

datatype json = JNull | JBool bool | JNum number | JStr string | JArr "json list" | JObj "(string \<times> json) list"

definition escapeChar :: "char \<Rightarrow> string" where
  "escapeChar c =
     (if c = CHR 0x22 then [CHR 0x5C, CHR 0x22]
      else if c = CHR 0x5C then [CHR 0x5C, CHR 0x5C]
      else if c = CHR 0x08 then [CHR 0x5C, CHR ''b'']
      else if c = CHR 0x0C then [CHR 0x5C, CHR ''f'']
      else if c = CHR 0x0A then [CHR 0x5C, CHR ''n'']
      else if c = CHR 0x0D then [CHR 0x5C, CHR ''r'']
      else if c = CHR 0x09 then [CHR 0x5C, CHR ''t'']
      else if (of_char c :: nat) < 32 then [CHR 0x5C, CHR ''u'', CHR ''0'', CHR ''0''] @ byteToHex (of_char c)
      else [c])"

definition quote :: "string \<Rightarrow> string" where
  "quote s = [CHR 0x22] @ concat (map escapeChar s) @ [CHR 0x22]"

fun joinWith :: "string \<Rightarrow> string list \<Rightarrow> string" where
  "joinWith sep [] = []"
| "joinWith sep [x] = x"
| "joinWith sep (x # y # ys) = x @ sep @ joinWith sep (y # ys)"

fun stringify :: "(number \<Rightarrow> string) \<Rightarrow> json \<Rightarrow> string" where
  "stringify num JNull = ''null''"
| "stringify num (JBool b) = (if b then ''true'' else ''false'')"
| "stringify num (JNum n) = (case n of Finite m e \<Rightarrow> num n | _ \<Rightarrow> ''null'')"
| "stringify num (JStr s) = quote s"
| "stringify num (JArr xs) = ''['' @ joinWith '','' (map (stringify num) xs) @ '']''"
| "stringify num (JObj kvs) =
     ''{'' @ joinWith '','' (map (\<lambda>kv. quote (fst kv) @ '':'' @ stringify num (snd kv)) kvs) @ ''}''"

section \<open>transaction.js\<close>

text \<open>
  A transaction has the fields set by the constructor. \<open>tx_id\<close> is the getter \<open>id\<close>.
  \<open>sign\<close> appends one signature of the id. \<open>validSignature\<close> is the \<open>for\<close> loop as the
  source has it: the loop starts at index 0 and every path through its body returns, the
  last statement of the body being \<open>return true\<close>, so the increment is never reached;
  with an empty \<open>from\<close> the body does not run and the method returns \<open>undefined\<close>
  (\<open>None\<close>). \<open>signAll\<close> is \<open>gatheredPriv.forEach((pk) => tx.sign(pk))\<close> of
  \<open>postTransaction\<close>.
\<close>

definition TX_CONST :: string where
  "TX_CONST = ''TX''"

record tx_output =
  amount :: number
  address :: string

record transaction =
  tx_from :: "string list"
  nonce :: number
  pubKey :: "string list"
  sig :: "string list"
  fee :: number
  outputs :: "tx_output list"
  data :: json

definition tx_id :: "crypto \<Rightarrow> transaction \<Rightarrow> string" where
  "tx_id C tx =
     hash C (TX_CONST @ stringify (numberToString C) (JObj
       [(''from'', JArr (map JStr (tx_from tx))),
        (''nonce'', JNum (nonce tx)),
        (''pubKey'', JArr (map JStr (pubKey tx))),
        (''outputs'', JArr (map (\<lambda>out. JObj [(''amount'', JNum (amount out)), (''address'', JStr (address out))])
                              (outputs tx))),
        (''fee'', JNum (fee tx)),
        (''data'', data tx)])) Hex"

definition sign :: "crypto \<Rightarrow> string \<Rightarrow> transaction \<Rightarrow> error + transaction" where
  "sign C privKey tx =
     (case rsaSign C privKey (tx_id C tx) of
        Inl e \<Rightarrow> Inl e
      | Inr s \<Rightarrow> Inr (tx\<lparr>sig := sig tx @ [s]\<rparr>))"

definition nth_opt :: "'a list \<Rightarrow> nat \<Rightarrow> 'a option" where
  "nth_opt xs i = (if i < length xs then Some (xs ! i) else None)"

definition validSignature :: "crypto \<Rightarrow> transaction \<Rightarrow> error + bool option" where
  "validSignature C tx =
     (let i = 0 in
      if i < length (tx_from tx) then
        (if \<not> addressMatchesKey C (tx_from tx ! i) (nth_opt (pubKey tx) i) then Inr (Some False)
         else case nth_opt (sig tx) i of
           None \<Rightarrow> Inr (Some False)
         | Some sg \<Rightarrow>
             (case verifySignature C (nth_opt (pubKey tx) i) (tx_id C tx) sg of
                Inl e \<Rightarrow> Inl e
              | Inr ok \<Rightarrow> if \<not> ok then Inr (Some False) else Inr (Some True)))
      else Inr None)"

definition totalOutput :: "transaction \<Rightarrow> number" where
  "totalOutput tx = foldl (\<lambda>totalValue out. jsAdd totalValue (amount out)) (fee tx) (outputs tx)"

fun signAll :: "crypto \<Rightarrow> string list \<Rightarrow> transaction \<Rightarrow> error + transaction" where
  "signAll C [] tx = Inr tx"
| "signAll C (pk # pks) tx = (case sign C pk tx of Inl e \<Rightarrow> Inl e | Inr tx' \<Rightarrow> signAll C pks tx')"

section \<open>client.js\<close>

text \<open>
  The state of a Client is a record of the fields that the methods below read or write.
  A JavaScript Map is an association list in insertion order (\<open>map_of\<close> for \<open>get\<close> and
  \<open>has\<close>, \<open>AList.update\<close> for \<open>set\<close>, \<open>AList.delete\<close> for \<open>delete\<close>). A Set of blocks is
  a list without repetition, in insertion order. \<open>net\<close> is the list of messages handed to
  \<open>this.net\<close>, oldest first. \<open>prngDraws\<close> is the state of the seeded generator
  \<open>this.prng\<close>: the number of key pairs drawn so far. What is written on the console
  is not modelled, but \<open>this.log\<close> is: it reads \<open>this.name || this.address.substring(0,10)\<close>,
  which throws a type error for a client with no name (or an empty one) and no address.
  Amounts, fees and balances are numbers; block heights and counters are integers.

  The Block class, the Blockchain constants and the key generator are not part of these
  source files. A block is a record of the three properties that client.js reads
  (\<open>id\<close>, \<open>prevBlockHash\<close>, \<open>chainLength\<close>), the identity of the object (\<open>objRef\<close>: two
  Block objects built from the same message are two objects, and a Set compares
  objects by identity) and the remainder of its state (\<open>rest\<close>). The methods of Block and
  the other collaborators are the fields of the environment \<open>env\<close>: \<open>rerun E block prev\<close>
  is \<open>None\<close> when \<open>block.rerun(prev)\<close> returns false, and otherwise the new remainder of
  the block, whose id, prevBlockHash and chainLength it leaves as they are;
  \<open>keyStream E n\<close> is the key pair of draw number \<open>n\<close>; \<open>addTransaction\<close> is defined for
  a miner only. \<open>receiveBlock\<close> takes the Block object that
  \<open>Blockchain.deserializeBlock\<close> returns.
\<close>

record keypair =
  public_key :: string
  private_key :: string

record slot =
  address_w :: string
  keyPair_w :: keypair

record 'b block =
  objRef :: nat
  blockId :: string
  prevBlockHash :: string
  chainLength :: int
  rest :: 'b

datatype 'b payload =
    TxPayload transaction
  | MissingPayload "string option" string
  | BlockPayload "'b block"

datatype 'b message =
    Broadcast string "'b payload"
  | SendMessage "string option" string "'b payload"

record 'b client =
  name_c :: "string option"
  wallet :: "slot list"
  prngDraws :: nat
  address_c :: "string option"
  keyPair_c :: "keypair option"
  nonce_c :: int
  pendingOutgoingTransactions :: "(string \<times> transaction) list"
  blocks :: "(string \<times> 'b block) list"
  pendingBlocks :: "(string \<times> 'b block list) list"
  lastBlock :: "'b block option"
  lastConfirmedBlock :: "'b block option"
  net :: "'b message list"

record 'b env =
  crypto :: crypto
  keyStream :: "nat \<Rightarrow> keypair"
  CONFIRMED_DEPTH :: int
  hasValidProof :: "'b block \<Rightarrow> bool"
  isGenesisBlock :: "'b block \<Rightarrow> bool"
  rerun :: "'b block \<Rightarrow> 'b block \<Rightarrow> 'b option"
  balanceOf :: "'b block \<Rightarrow> string option \<Rightarrow> number"
  contains :: "'b block \<Rightarrow> transaction \<Rightarrow> bool"
  addTransaction :: "('b client \<Rightarrow> transaction \<Rightarrow> 'b client) option"

definition PROOF_FOUND :: string where "PROOF_FOUND = ''PROOF_FOUND''"
definition MISSING_BLOCK :: string where "MISSING_BLOCK = ''MISSING_BLOCK''"
definition POST_TRANSACTION :: string where "POST_TRANSACTION = ''POST_TRANSACTION''"

definition set_add :: "'a \<Rightarrow> 'a list \<Rightarrow> 'a list" where
  "set_add x xs = (if x \<in> set xs then xs else xs @ [x])"

definition log :: "'b client \<Rightarrow> error + unit" where
  "log s =
     (if (case name_c s of None \<Rightarrow> False | Some n \<Rightarrow> n \<noteq> []) then Inr ()
      else case address_c s of None \<Rightarrow> Inl TypeError | Some a \<Rightarrow> Inr ())"

definition requestMissingBlock :: "'b client \<Rightarrow> 'b block \<Rightarrow> 'b client \<times> (error + unit)" where
  "requestMissingBlock s block =
     (case log s of
        Inl e \<Rightarrow> (s, Inl e)
      | Inr _ \<Rightarrow>
          (let msg = MissingPayload (address_c s) (prevBlockHash block)
           in (s\<lparr>net := net s @ [Broadcast MISSING_BLOCK msg]\<rparr>, Inr ())))"

text \<open>
  The \<open>while\<close> loop of \<open>setLastConfirmed\<close>. It throws a type error when a parent is
  missing, and need not end on an arbitrary Map, so it is a partial function.
\<close>

partial_function (option) walkBack ::
  "(string \<times> 'b block) list \<Rightarrow> int \<Rightarrow> 'b block \<Rightarrow> (error + 'b block) option" where
  "walkBack bs confirmedBlockHeight block =
     (if chainLength block > confirmedBlockHeight then
        (case map_of bs (prevBlockHash block) of
           None \<Rightarrow> Some (Inl TypeError)
         | Some prev \<Rightarrow> walkBack bs confirmedBlockHeight prev)
      else Some (Inr block))"

definition setLastConfirmed :: "'b env \<Rightarrow> 'b client \<Rightarrow> ('b client \<times> (error + unit)) option" where
  "setLastConfirmed E s =
     (case lastBlock s of
        None \<Rightarrow> Some (s, Inl TypeError)
      | Some block \<Rightarrow>
          (let confirmedBlockHeight = chainLength block - CONFIRMED_DEPTH E;
               confirmedBlockHeight = (if confirmedBlockHeight < 0 then 0 else confirmedBlockHeight)
           in case walkBack (blocks s) confirmedBlockHeight block of
                None \<Rightarrow> None
              | Some (Inl e) \<Rightarrow> Some (s, Inl e)
              | Some (Inr b) \<Rightarrow>
                  Some (s\<lparr>lastConfirmedBlock := Some b,
                          pendingOutgoingTransactions :=
                            filter (\<lambda>(txID, tx). \<not> contains E b tx) (pendingOutgoingTransactions s)\<rparr>,
                        Inr ())))"

text \<open>
  \<open>xs.forEach(f)\<close> for a callback that changes the client and may throw: the calls run in
  order and the first exception ends the loop.
\<close>

fun forEachM :: "('s \<Rightarrow> 'a \<Rightarrow> ('s \<times> (error + 'r)) option) \<Rightarrow> 'a list \<Rightarrow> 's \<Rightarrow> ('s \<times> (error + unit)) option" where
  "forEachM f [] s = Some (s, Inr ())"
| "forEachM f (x # xs) s =
     Option.bind (f s x) (\<lambda>(s', r). case r of Inl e \<Rightarrow> Some (s', Inl e) | Inr _ \<Rightarrow> forEachM f xs s')"

lemma forEachM_mono [partial_function_mono]:
  fixes F :: "('p \<Rightarrow> 'q option) \<Rightarrow> 's \<Rightarrow> 'a \<Rightarrow> ('s \<times> (error + 'r)) option"
  assumes "\<And>s x. mono_option (\<lambda>f. F f s x)"
  shows "mono_option (\<lambda>f. forEachM (F f) xs s)"
proof (rule monotoneI)
  fix f g :: "'p \<Rightarrow> 'q option"
  assume fg: "option.le_fun f g"
  have step: "option_ord (F f s x) (F g s x)" for s x
    using assms fg unfolding monotone_def by blast
  show "option_ord (forEachM (F f) xs s) (forEachM (F g) xs s)"
  proof (induction xs arbitrary: s)
    case Nil
    then show ?case by (simp add: flat_ord_def)
  next
    case (Cons x xs)
    from step [of s x] consider "F f s x = None" | "F f s x = F g s x"
      by (auto simp: flat_ord_def)
    then show ?case
    proof cases
      case 1
      then show ?thesis by (simp add: flat_ord_def)
    next
      case 2
      show ?thesis
      proof (cases "F g s x")
        case None
        with 2 show ?thesis by (simp add: flat_ord_def)
      next
        case (Some y)
        obtain s' r where y: "y = (s', r)" by (cases y)
        show ?thesis
          using 2 Some y Cons [of s'] by (cases r) (simp_all add: flat_ord_def)
      qed
    qed
  qed
qed

text \<open>
  \<open>receiveBlock\<close>, in the order of the source: \<open>bufferOrphan\<close> is the branch for a missing
  parent (lines 287 to 297), \<open>storeBlock\<close> stores the block and moves the head (lines 309
  to 316), \<open>takeUnstuck\<close> removes the orphans that waited for the block (lines 320 to
  322), and \<open>processUnstuck\<close> is the callback of the last \<open>forEach\<close> (lines 324 and 325).
  The result is the new client and the value returned (\<open>None\<close> for \<open>null\<close>) or the
  exception thrown; \<open>None\<close> for the whole result is a call that does not return.
\<close>

definition bufferOrphan :: "'b client \<Rightarrow> 'b block \<Rightarrow> 'b client \<times> (error + unit)" where
  "bufferOrphan s block =
     (let stuckBlocks = map_of (pendingBlocks s) (prevBlockHash block)
      in case (if stuckBlocks = None then requestMissingBlock s block else (s, Inr ())) of
           (s, Inl e) \<Rightarrow> (s, Inl e)
         | (s, Inr _) \<Rightarrow>
             (let stuckBlocks = (case stuckBlocks of None \<Rightarrow> [] | Some bs \<Rightarrow> bs);
                  stuckBlocks = set_add block stuckBlocks
              in (s\<lparr>pendingBlocks := AList.update (prevBlockHash block) stuckBlocks (pendingBlocks s)\<rparr>,
                  Inr ())))"

definition storeBlock :: "'b env \<Rightarrow> 'b client \<Rightarrow> 'b block \<Rightarrow> ('b client \<times> (error + unit)) option" where
  "storeBlock E s block =
     (let s = s\<lparr>blocks := AList.update (blockId block) block (blocks s)\<rparr> in
      case lastBlock s of
        None \<Rightarrow> Some (s, Inl TypeError)
      | Some head \<Rightarrow>
          if chainLength head < chainLength block
          then setLastConfirmed E (s\<lparr>lastBlock := Some block\<rparr>)
          else Some (s, Inr ()))"

definition takeUnstuck :: "'b client \<Rightarrow> 'b block \<Rightarrow> 'b block list \<times> 'b client" where
  "takeUnstuck s block =
     (let unstuckBlocks = (case map_of (pendingBlocks s) (blockId block) of None \<Rightarrow> [] | Some bs \<Rightarrow> bs)
      in (unstuckBlocks, s\<lparr>pendingBlocks := AList.delete (blockId block) (pendingBlocks s)\<rparr>))"

definition processUnstuck ::
  "('b client \<Rightarrow> 'b block \<Rightarrow> ('b client \<times> (error + 'r)) option)
     \<Rightarrow> 'b client \<Rightarrow> 'b block \<Rightarrow> ('b client \<times> (error + 'r)) option" where
  "processUnstuck receive s b = (case log s of Inl e \<Rightarrow> Some (s, Inl e) | Inr _ \<Rightarrow> receive s b)"

lemma processUnstuck_mono [partial_function_mono]:
  assumes "\<And>s b. mono_option (\<lambda>f. F f s b)"
  shows "mono_option (\<lambda>f. processUnstuck (F f) s b)"
  unfolding processUnstuck_def using assms by (cases "log s") (simp_all add: option.const_mono)

partial_function (option) receiveBlock ::
  "'b env \<Rightarrow> 'b client \<Rightarrow> 'b block \<Rightarrow> ('b client \<times> (error + 'b block option)) option" where
  "receiveBlock E s block =
     (if map_of (blocks s) (blockId block) \<noteq> None then Some (s, Inr None)
      else if \<not> hasValidProof E block \<and> \<not> isGenesisBlock E block
        then Some (s, case log s of Inl e \<Rightarrow> Inl e | Inr _ \<Rightarrow> Inr None)
      else
        (let prevBlock = map_of (blocks s) (prevBlockHash block) in
         if prevBlock = None \<and> \<not> isGenesisBlock E block
         then (case bufferOrphan s block of
                 (s, Inl e) \<Rightarrow> Some (s, Inl e)
               | (s, Inr _) \<Rightarrow> Some (s, Inr None))
         else
           (case (if isGenesisBlock E block then Some block
                  else (case prevBlock of
                          None \<Rightarrow> None
                        | Some prev \<Rightarrow> map_option (\<lambda>r. block\<lparr>rest := r\<rparr>) (rerun E block prev))) of
              None \<Rightarrow> Some (s, Inr None)
            | Some block \<Rightarrow>
                Option.bind (storeBlock E s block)
                  (\<lambda>(s, r). case r of
                     Inl e \<Rightarrow> Some (s, Inl e)
                   | Inr _ \<Rightarrow>
                       (case takeUnstuck s block of
                          (unstuckBlocks, s) \<Rightarrow>
                            Option.bind (forEachM (processUnstuck (receiveBlock E)) unstuckBlocks s)
                              (\<lambda>(s, r). case r of
                                 Inl e \<Rightarrow> Some (s, Inl e)
                               | Inr _ \<Rightarrow> Some (s, Inr (Some block))))))))"

definition generateKeypairFromMnemonic :: "'b env \<Rightarrow> 'b client \<Rightarrow> keypair \<times> 'b client" where
  "generateKeypairFromMnemonic E s = (keyStream E (prngDraws s), s\<lparr>prngDraws := prngDraws s + 1\<rparr>)"

definition generateAddress :: "'b env \<Rightarrow> 'b client \<Rightarrow> string \<times> 'b client" where
  "generateAddress E s =
     (case generateKeypairFromMnemonic E s of
        (kp, s) \<Rightarrow>
          (let addr = calcAddress (crypto E) (Some (public_key kp))
           in (addr, s\<lparr>keyPair_c := Some kp, address_c := Some addr,
                        wallet := wallet s @ [\<lparr>address_w = addr, keyPair_w = kp\<rparr>]\<rparr>)))"

definition getConfirmedBalance :: "'b env \<Rightarrow> 'b client \<Rightarrow> error + number" where
  "getConfirmedBalance E s =
     (if wallet s = [] then Inr (ofInt 0)
      else case lastConfirmedBlock s of
        None \<Rightarrow> Inl TypeError
      | Some b \<Rightarrow>
          Inr (foldl (\<lambda>totalAmount w. jsAdd totalAmount (balanceOf E b (Some (address_w w))))
                 (ofInt 0) (wallet s)))"

text \<open>
  Modelled from the spec: \<open>Blockchain.makeTransaction\<close> (blockchain.js is not under src/)
  builds a Transaction from the fields given; the constructor of transaction.js sets
  \<open>sig\<close> to the empty list and \<open>data\<close> to the empty object when they are not given.
  Amounts are numbers here, so that the constructor's \<open>parseInt\<close> of other values does
  not apply.
\<close>

definition makeTransaction ::
  "string list \<Rightarrow> number \<Rightarrow> string list \<Rightarrow> tx_output list \<Rightarrow> number \<Rightarrow> transaction" where
  "makeTransaction frm n pk outs f =
     \<lparr>tx_from = frm, nonce = n, pubKey = pk, sig = [], fee = f, outputs = outs, data = JObj []\<rparr>"

text \<open>
  The \<open>while (total > gathered)\<close> loop of \<open>postTransaction\<close>: \<open>wallet.shift()\<close> on an empty
  wallet gives \<open>undefined\<close>, and reading its address throws a type error. The result is
  paired with the wallet that is left.
\<close>

fun gather :: "'b env \<Rightarrow> 'b block option \<Rightarrow> number \<Rightarrow> number \<Rightarrow> slot list \<Rightarrow> slot list
    \<Rightarrow> (error + number \<times> slot list) \<times> slot list" where
  "gather E lcb total' gathered taken [] =
     (if jsGt total' gathered then (Inl TypeError, []) else (Inr (gathered, taken), []))"
| "gather E lcb total' gathered taken (nextKey # w) =
     (if jsGt total' gathered then
        (case lcb of
           None \<Rightarrow> (Inl TypeError, w)
         | Some b \<Rightarrow>
             gather E lcb total' (jsAdd gathered (balanceOf E b (Some (address_w nextKey))))
               (taken @ [nextKey]) w)
      else (Inr (gathered, taken), nextKey # w))"

definition postTransaction ::
  "'b env \<Rightarrow> 'b client \<Rightarrow> tx_output list \<Rightarrow> number \<Rightarrow> 'b client \<times> (error + transaction)" where
  "postTransaction E s outs f =
     (let total' = jsAdd (foldl (\<lambda>total' out. jsAdd total' (amount out)) (ofInt 0) outs) f in
      case getConfirmedBalance E s of
        Inl e \<Rightarrow> (s, Inl e)
      | Inr bal \<Rightarrow>
          if jsGt total' bal then (s, Inl (Error ''Not enough money!''))
          else
            (case gather E (lastConfirmedBlock s) total' (ofInt 0) [] (wallet s) of
               (Inl e, w) \<Rightarrow> (s\<lparr>wallet := w\<rparr>, Inl e)
             | (Inr (gathered, taken), w) \<Rightarrow>
                 (let s = s\<lparr>wallet := w\<rparr>;
                      gatheredAddrs = map address_w taken;
                      gatheredKeys = map (\<lambda>k. public_key (keyPair_w k)) taken;
                      gatheredPriv = map (\<lambda>k. private_key (keyPair_w k)) taken;
                      (outs, s) =
                        (if jsGt gathered total' then
                           (case generateAddress E s of
                              (newAddr, s) \<Rightarrow>
                                (outs @ [\<lparr>amount = jsSub gathered total', address = newAddr\<rparr>], s))
                         else (outs, s));
                      tx = makeTransaction gatheredAddrs (ofInt 0) gatheredKeys outs f
                  in case signAll (crypto E) gatheredPriv tx of
                       Inl e \<Rightarrow> (s, Inl e)
                     | Inr tx \<Rightarrow>
                         (let s = s\<lparr>pendingOutgoingTransactions :=
                                     AList.update (tx_id (crypto E) tx) tx (pendingOutgoingTransactions s)\<rparr>;
                              s = s\<lparr>net := net s @ [Broadcast POST_TRANSACTION (TxPayload tx)]\<rparr>;
                              s = (case addTransaction E of None \<Rightarrow> s | Some add \<Rightarrow> add s tx)
                          in (s, Inr tx)))))"

text \<open>
  \<open>recoverFunds\<close>. The method returns nothing; the list returned here records the
  argument of every call of \<open>balanceOf\<close>, in order (\<open>None\<close> for \<open>undefined\<close>): the guard of
  the loop, the test in the body and, when funds are found, the message that is logged.
\<close>

partial_function (option) recoverFunds_loop ::
  "'b env \<Rightarrow> 'b client \<Rightarrow> int \<Rightarrow> int \<Rightarrow> string option \<Rightarrow> string option list
     \<Rightarrow> ('b client \<times> (error + string option list)) option" where
  "recoverFunds_loop E s maxAttempts attempts checkAddress queried =
     (case lastConfirmedBlock s of
        None \<Rightarrow> Some (s, Inl TypeError)
      | Some lcb \<Rightarrow>
          (let queried = queried @ [checkAddress] in
           if \<not> jsEq (balanceOf E lcb checkAddress) (ofInt 0) \<or> attempts < maxAttempts then
             (case generateKeypairFromMnemonic E s of
                (genKeyPair, s) \<Rightarrow>
                  (let addr = calcAddress (crypto E) (Some (public_key genKeyPair));
                       checkAddress = Some addr;
                       queried = queried @ [checkAddress]
                   in if jsEq (balanceOf E lcb checkAddress) (ofInt 0)
                      then recoverFunds_loop E s maxAttempts (attempts + 1) checkAddress queried
                      else recoverFunds_loop E
                             (s\<lparr>wallet := wallet s @ [\<lparr>address_w = addr, keyPair_w = genKeyPair\<rparr>]\<rparr>)
                             maxAttempts 0 checkAddress (queried @ [checkAddress])))
           else Some (s, Inr queried)))"

declare recoverFunds_loop.simps [code]
declare receiveBlock.simps [code]
declare walkBack.simps [code]

definition recoverFunds :: "'b env \<Rightarrow> 'b client \<Rightarrow> int \<Rightarrow> ('b client \<times> (error + string option list)) option" where
  "recoverFunds E s maxAttempts = recoverFunds_loop E s maxAttempts 0 None []"

section \<open>Definitions used to state the results\<close>

text \<open>
  \<open>bitChar\<close> is the character that \<open>convertByteToBinString\<close> writes for one bit.
  \<open>chunkByte\<close> is the byte that the loop of \<open>calculateSequence\<close> stores for one piece of
  the bit string, and \<open>presentBits\<close> the bit string of the words of a phrase that are in
  the word list. \<open>encodeFields\<close> is the encoding that a transaction id is the hash of,
  written as a function of the six fields from, nonce, pubKey, outputs, fee and data:
  the JSON object with these six members in this order (\<open>member\<close> is one member of an
  object whose key needs no escape). The other definitions are small instances on
  which the results are evaluated: a word list of 2048 distinct words, stand-ins for
  the hash, for the signature scheme and for the text of a number, a transaction with
  two inputs, and a client with a genesis block 'G', two blocks 'A' and 'B' on it and
  an orphan 'D'; a client whose head 'H2' is as long as 'B', a client that holds an
  orphan 'E' waiting for 'B', and a client whose wallet holds \<open>2 ^ 53\<close>.
\<close>

definition member :: "string \<Rightarrow> string \<Rightarrow> string" where
  "member k v = [CHR 0x22] @ k @ [CHR 0x22] @ '':'' @ v"

definition encodeFields ::
  "(number \<Rightarrow> string) \<Rightarrow> string list \<Rightarrow> number \<Rightarrow> string list \<Rightarrow> tx_output list \<Rightarrow> number \<Rightarrow> json
     \<Rightarrow> string" where
  "encodeFields num frm n pk outs f d =
     ''{'' @ member ''from'' (stringify num (JArr (map JStr frm)))
     @ '','' @ member ''nonce'' (stringify num (JNum n))
     @ '','' @ member ''pubKey'' (stringify num (JArr (map JStr pk)))
     @ '','' @ member ''outputs''
                (''['' @ joinWith '',''
                          (map (\<lambda>out. ''{'' @ member ''amount'' (stringify num (JNum (amount out)))
                                       @ '','' @ member ''address'' (quote (address out)) @ ''}'') outs)
                 @ '']'')
     @ '','' @ member ''fee'' (stringify num (JNum f))
     @ '','' @ member ''data'' (stringify num d)
     @ ''}''"

definition bitChar :: "byte \<Rightarrow> nat \<Rightarrow> char" where
  "bitChar b k = (if bit b k then CHR ''1'' else CHR ''0'')"

definition chunkByte :: "string \<Rightarrow> byte" where
  "chunkByte s = (case convertBinStringToByte s of None \<Rightarrow> 0 | Some n \<Rightarrow> of_nat n)"

definition presentBits :: "string list \<Rightarrow> string \<Rightarrow> string" where
  "presentBits wl ws = concat (map (wordBits wl) (filter (\<lambda>w. w \<in> set wl) (splitStr CHR '' '' ws)))"

function showNat :: "nat \<Rightarrow> string" where
  "showNat n = (if n < 10 then [''0123456789'' ! n] else showNat (n div 10) @ [''0123456789'' ! (n mod 10)])"
  by pat_completeness auto
termination
  by (relation "measure id") auto

function showDigits :: "int \<Rightarrow> string" where
  "showDigits n =
     (if n < 10 then [''0123456789'' ! nat n] else showDigits (n div 10) @ [''0123456789'' ! nat (n mod 10)])"
  by pat_completeness auto
termination
  by (relation "measure nat") auto

definition toyNumberToString :: "number \<Rightarrow> string" where
  "toyNumberToString x =
     (case x of
        Finite m e \<Rightarrow>
          (if m < 0 then ''-'' else []) @ showDigits (\<bar>m\<bar> * 2 ^ nat e)
            @ (if e < 0 then ''/2^'' @ showDigits (- e) else [])
      | _ \<Rightarrow> ''null'')"

definition toyWordlist :: "string list" where
  "toyWordlist = map (\<lambda>n. replicate (Suc n) CHR ''a'') [0..<2048]"

definition toyDigest :: "string \<Rightarrow> buffer" where
  "toyDigest s = replicate 32 (of_nat (length s))"

definition toyMnemonic :: mnemonic where
  "toyMnemonic = \<lparr>wordlist = toyWordlist, seq = replicate 33 0\<rparr>"

definition toyCrypto :: crypto where
  "toyCrypto =
     \<lparr>sha256 = (\<lambda>s. map (\<lambda>c. of_nat (of_char c)) s),
      base64 = toHex,
      rsaSign = (\<lambda>priv msg. Inr (priv @ ''|'' @ msg)),
      rsaVerify = (\<lambda>pub msg sg. case pub of None \<Rightarrow> Inl TypeError | Some p \<Rightarrow> Inr (sg = p @ ''|'' @ msg)),
      numberToString = toyNumberToString\<rparr>"

definition toyTx :: transaction where
  "toyTx =
     \<lparr>tx_from = [calcAddress toyCrypto (Some ''K0''), ''nobody''],
      nonce = ofInt 0,
      pubKey = [''K0'', ''K1''],
      sig = [],
      fee = ofInt 1,
      outputs = [\<lparr>amount = ofInt 40, address = ''B''\<rparr>],
      data = JObj []\<rparr>"

definition toyTxSigned :: transaction where
  "toyTxSigned = toyTx\<lparr>sig := [''K0|'' @ tx_id toyCrypto toyTx]\<rparr>"

type_synonym toy = "(string \<times> int) list"

definition toyEnv :: "toy env" where
  "toyEnv =
     \<lparr>crypto = toyCrypto,
      keyStream = (\<lambda>n. \<lparr>public_key = ''K'' @ showNat n, private_key = ''K'' @ showNat n\<rparr>),
      CONFIRMED_DEPTH = 1,
      hasValidProof = (\<lambda>b. True),
      isGenesisBlock = (\<lambda>b. chainLength b = 0),
      rerun = (\<lambda>b prev. Some (rest prev)),
      balanceOf = (\<lambda>b a. case a of None \<Rightarrow> ofInt 0
                            | Some a \<Rightarrow> (case map_of (rest b) a of None \<Rightarrow> ofInt 0 | Some v \<Rightarrow> ofInt v)),
      contains = (\<lambda>b tx. False),
      addTransaction = None\<rparr>"

definition toyGenesis :: "toy block" where
  "toyGenesis =
     \<lparr>objRef = 0, blockId = ''G'', prevBlockHash = '''', chainLength = 0,
      rest = [(calcAddress toyCrypto (Some ''K0''), 100)]\<rparr>"

definition toyClient :: "toy client" where
  "toyClient =
     \<lparr>name_c = None,
      wallet = [\<lparr>address_w = calcAddress toyCrypto (Some ''K0''),
                 keyPair_w = \<lparr>public_key = ''K0'', private_key = ''K0''\<rparr>\<rparr>],
      prngDraws = 1,
      address_c = Some (calcAddress toyCrypto (Some ''K0'')),
      keyPair_c = Some \<lparr>public_key = ''K0'', private_key = ''K0''\<rparr>,
      nonce_c = 0,
      pendingOutgoingTransactions = [],
      blocks = [(''G'', toyGenesis)],
      pendingBlocks = [],
      lastBlock = Some toyGenesis,
      lastConfirmedBlock = Some toyGenesis,
      net = []\<rparr>"

definition toyBlockA :: "toy block" where
  "toyBlockA = \<lparr>objRef = 1, blockId = ''A'', prevBlockHash = ''G'', chainLength = 1, rest = []\<rparr>"

definition toyBlockB :: "toy block" where
  "toyBlockB = \<lparr>objRef = 2, blockId = ''B'', prevBlockHash = ''G'', chainLength = 2, rest = []\<rparr>"

definition toyOrphan :: "toy block" where
  "toyOrphan = \<lparr>objRef = 3, blockId = ''D'', prevBlockHash = ''C'', chainLength = 2, rest = []\<rparr>"

text \<open>
  \<open>headAdvances old new\<close>: the head is unchanged or replaced by a strictly longer block.
  \<open>chainStored\<close>: every stored block of positive chainLength has its parent stored, with
  a smaller chainLength.
\<close>

definition headAdvances :: "'b block option \<Rightarrow> 'b block option \<Rightarrow> bool" where
  "headAdvances old new =
     (case old of
        None \<Rightarrow> True
      | Some h \<Rightarrow> (case new of None \<Rightarrow> False | Some h' \<Rightarrow> h' = h \<or> chainLength h < chainLength h'))"

definition chainStored :: "(string \<times> 'b block) list \<Rightarrow> bool" where
  "chainStored bs =
     list_all (\<lambda>(k, b). chainLength b \<le> 0 \<or>
                 (case map_of bs (prevBlockHash b) of None \<Rightarrow> False | Some p \<Rightarrow> chainLength p < chainLength b)) bs"

definition toyBlockA' :: "toy block" where
  "toyBlockA' = toyBlockA\<lparr>rest := rest toyGenesis\<rparr>"

definition toyClientA :: "toy client" where
  "toyClientA =
     toyClient\<lparr>blocks := [(''G'', toyGenesis), (''A'', toyBlockA')],
               lastBlock := Some toyBlockA',
               lastConfirmedBlock := Some toyGenesis\<rparr>"

definition toyOrphanCopy :: "toy block" where
  "toyOrphanCopy = toyOrphan\<lparr>objRef := 4\<rparr>"

definition toyClientOrphan :: "toy client" where
  "toyClientOrphan =
     toyClient\<lparr>pendingBlocks := [(''C'', [toyOrphan])],
               net := [Broadcast MISSING_BLOCK (MissingPayload (address_c toyClient) ''C'')]\<rparr>"

definition toyBlockB' :: "toy block" where
  "toyBlockB' = toyBlockB\<lparr>rest := rest toyGenesis\<rparr>"

definition toyH1 :: "toy block" where
  "toyH1 = \<lparr>objRef = 6, blockId = ''H1'', prevBlockHash = ''G'', chainLength = 1, rest = rest toyGenesis\<rparr>"

definition toyH2 :: "toy block" where
  "toyH2 = \<lparr>objRef = 7, blockId = ''H2'', prevBlockHash = ''H1'', chainLength = 2, rest = rest toyGenesis\<rparr>"

definition toyLongClient :: "toy client" where
  "toyLongClient =
     toyClient\<lparr>blocks := [(''G'', toyGenesis), (''H1'', toyH1), (''H2'', toyH2)],
               lastBlock := Some toyH2,
               lastConfirmedBlock := Some toyH1\<rparr>"

definition toyChild :: "toy block" where
  "toyChild = \<lparr>objRef = 8, blockId = ''E'', prevBlockHash = ''B'', chainLength = 3, rest = []\<rparr>"

definition toyChild' :: "toy block" where
  "toyChild' = toyChild\<lparr>rest := rest toyGenesis\<rparr>"

definition toyWaitingClient :: "toy client" where
  "toyWaitingClient = toyClient\<lparr>pendingBlocks := [(''B'', [toyChild])]\<rparr>"

definition toyRichGenesis :: "toy block" where
  "toyRichGenesis = toyGenesis\<lparr>rest := [(calcAddress toyCrypto (Some ''K0''), 2 ^ 53)]\<rparr>"

definition toyRichClient :: "toy client" where
  "toyRichClient =
     toyClient\<lparr>blocks := [(''G'', toyRichGenesis)],
               lastBlock := Some toyRichGenesis,
               lastConfirmedBlock := Some toyRichGenesis\<rparr>"

section \<open>Results for mnemonic.js\<close>

lemma take_concat_pairs:
  "(\<And>x. length (f x) = 2) \<Longrightarrow> take (2 * k) (concat (map f xs)) = concat (map f (take k xs))"
proof (induction xs arbitrary: k)
  case Nil
  then show ?case by simp
next
  case (Cons x xs)
  show ?case
  proof (cases k)
    case 0
    then show ?thesis by simp
  next
    case (Suc j)
    have "take (2 * Suc j) (f x @ concat (map f xs)) = f x @ take (2 * j) (concat (map f xs))"
      using Cons.prems [of x] by simp
    with Suc Cons show ?thesis by simp
  qed
qed

lemma checksumInput_first_half: "checksumInput sq = toHex (take 16 sq)"
  using take_concat_pairs [of byteToHex 16 sq]
  by (simp add: checksumInput_def toHex_def NUM_BYTES_def byteToHex_def)

lemma calcChecksum_update_tail:
  "16 \<le> i \<Longrightarrow> calcChecksum H (m\<lparr>seq := (seq m)[i := b]\<rparr>) = calcChecksum H m"
  by (simp add: calcChecksum_def checksumInput_first_half)

text \<open>
  Claim C3. The text that \<open>calcChecksum\<close> hashes is
  \<open>this.seq.toString('hex').slice(0, NUM_BYTES)\<close>: the first 32 characters of the hex
  text, which spell the first 16 bytes only (the comment beside it says "Dropping the
  last byte, holding the checksum"). So the hashed input does not cover the 32 entropy
  bytes: the two buffers below differ in entropy byte 16, the text hashed is the same, and
  \<open>isValid\<close> gives the same answer on both, whatever the hash function is.
\<close>

theorem calcChecksum_hashes_first_16_bytes:
  "checksumInput sq = toHex (take 16 sq)
   \<and> (replicate 33 0)[16 := 1] \<noteq> replicate 33 (0::byte)
   \<and> checksumInput ((replicate 33 0)[16 := 1]) = checksumInput (replicate 33 0)
   \<and> isValid H \<lparr>wordlist = wl, seq = (replicate 33 0)[16 := 1]\<rparr>
       = isValid H \<lparr>wordlist = wl, seq = replicate 33 0\<rparr>"
proof -
  have 1: "checksumInput sq = toHex (take 16 sq)"
    by (rule checksumInput_first_half)
  have "((replicate 33 0)[16 := 1]) ! 16 = (1::byte)" by simp
  moreover have "(replicate 33 (0::byte)) ! 16 = 0" by simp
  ultimately have 2: "(replicate 33 0)[16 := 1] \<noteq> replicate 33 (0::byte)"
    by (metis zero_neq_one)
  have 3: "checksumInput ((replicate 33 0)[16 := 1]) = checksumInput (replicate 33 0)"
    by (simp add: checksumInput_first_half)
  have 4: "isValid H \<lparr>wordlist = wl, seq = (replicate 33 0)[16 := 1]\<rparr>
      = isValid H \<lparr>wordlist = wl, seq = replicate 33 0\<rparr>"
    by (simp add: isValid_def calcChecksum_def 3 readUInt8_def NUM_BYTES_def)
  from 1 2 3 4 show ?thesis by simp
qed

text \<open>
  Claim C10. A freshly constructed Mnemonic passes \<open>isValid\<close>: the constructor stores
  \<open>calcChecksum()\<close> of the randomised buffer in byte 32, and \<open>isValid\<close> recomputes the same
  value, since writing byte 32 does not change the text that is hashed. The digest of the
  hash function is never empty (SHA-256 gives 32 bytes).
\<close>

theorem newMnemonic_isValid:
  assumes "\<And>x. H x \<noteq> []"
  shows "\<exists>m. newMnemonic H wl rnd = Inr m \<and> isValid H m = Inr True"
proof -
  define m0 where "m0 = \<lparr>wordlist = wl, seq = randomFillSync rnd (replicate (NUM_BYTES + 1) 0)\<rparr>"
  have len: "length (seq m0) = 33"
    by (simp add: m0_def randomFillSync_def NUM_BYTES_def)
  obtain b where b: "calcChecksum H m0 = Some b"
    using assms [of "checksumInput (seq m0)"]
    by (cases "H (checksumInput (seq m0))") (auto simp: calcChecksum_def)
  have w: "writeUInt8 (map_option unat (calcChecksum H m0)) NUM_BYTES (seq m0) = Inr ((seq m0)[32 := b])"
    proof -
    have "unat b < 2 ^ 8" using unsigned_less [of b] by simp
    then have "\<not> 255 < unat b" by simp
    then show ?thesis using len by (simp add: b writeUInt8_def NUM_BYTES_def)
  qed
  define m where "m = m0\<lparr>seq := (seq m0)[32 := b]\<rparr>"
  have new: "newMnemonic H wl rnd = Inr m"
    unfolding newMnemonic_def Let_def m0_def [symmetric] w m_def by simp
  have "calcChecksum H m = Some b"
    unfolding m_def using calcChecksum_update_tail [of 32 H m0 b] b by simp
  moreover have "readUInt8 NUM_BYTES (seq m) = Inr b"
    using len by (simp add: m_def readUInt8_def NUM_BYTES_def)
  ultimately have "isValid H m = Inr True"
    by (simp add: isValid_def)
  with new show ?thesis by blast
qed

theorem newMnemonic_isValid_witness:
  "\<exists>m. newMnemonic toyDigest toyWordlist (\<lambda>i. of_nat i) = Inr m \<and> isValid toyDigest m = Inr True"
proof -
  have h: "\<And>x. toyDigest x \<noteq> []"
    by (simp add: toyDigest_def)
  show ?thesis
    using newMnemonic_isValid [of toyDigest toyWordlist "\<lambda>i. of_nat i", OF h] by simp
qed

lemma binValue_Nil [simp]: "binValue [] = 0"
  by (simp add: binValue_def)

lemma foldl_bin_shift:
  fixes a :: nat
  defines "step \<equiv> (\<lambda>acc c. 2 * acc + (if c = CHR ''1'' then 1 else (0::nat)))"
  shows "foldl step a ds = a * 2 ^ length ds + foldl step 0 ds"
proof (induction ds arbitrary: a)
  case Nil
  then show ?case by simp
next
  case (Cons d ds)
  have "foldl step a (d # ds) = foldl step (step a d) ds" by simp
  also have "\<dots> = step a d * 2 ^ length ds + foldl step 0 ds" by (rule Cons.IH)
  finally have l: "foldl step a (d # ds) = step a d * 2 ^ length ds + foldl step 0 ds" .
  have "foldl step 0 (d # ds) = step 0 d * 2 ^ length ds + foldl step 0 ds"
    using Cons.IH [of "step 0 d"] by simp
  moreover have "step a d = a * 2 + step 0 d" by (simp add: step_def)
  ultimately show ?case using l by (simp add: algebra_simps)
qed

lemma binValue_Cons:
  "binValue (c # cs) = (if c = CHR ''1'' then 2 ^ length cs else 0) + binValue cs"
  using foldl_bin_shift [of "if c = CHR ''1'' then 1 else 0" cs] by (simp add: binValue_def)

lemma binValue_less: "binValue cs < 2 ^ length cs"
proof (induction cs)
  case Nil
  then show ?case by simp
next
  case (Cons c cs)
  then show ?case by (simp add: binValue_Cons)
qed

lemma split_loop_binValue:
  "length cs = Suc k \<Longrightarrow> split_loop (2 ^ k) v cs = v + binValue cs"
proof (induction k arbitrary: cs v)
  case 0
  then obtain c where "cs = [c]" by (cases cs) auto
  then show ?case by (simp add: binValue_Cons)
next
  case (Suc k)
  then obtain c cs' where cs: "cs = c # cs'" and len: "length cs' = Suc k" by (cases cs) auto
  show ?case using Suc.IH [OF len] by (simp add: cs binValue_Cons len)
qed

lemma translate_loop_binValue:
  "length cs = Suc k \<Longrightarrow> \<forall>c\<in>set cs. isBinDigit c \<Longrightarrow>
     translate11bit_loop (2 ^ k) (binValue cs) bs = bs @ cs"
proof (induction k arbitrary: cs bs)
  case 0
  then obtain c where cs: "cs = [c]" by (cases cs) auto
  with 0 have "c = CHR ''0'' \<or> c = CHR ''1''" by (simp add: isBinDigit_def)
  then show ?case
    by (auto simp: cs binValue_Cons translate11bit_loop.simps [of "Suc 0"] translate11bit_loop.simps [of 0])
next
  case (Suc k)
  then obtain c cs' where cs: "cs = c # cs'" and len: "length cs' = Suc k" by (cases cs) auto
  from Suc.prems cs have dig: "\<forall>c\<in>set cs'. isBinDigit c" and c: "c = CHR ''0'' \<or> c = CHR ''1''"
    by (simp_all add: isBinDigit_def)
  have lt: "binValue cs' < 2 ^ Suc k" using binValue_less [of cs'] len by simp
  show ?case
  proof (cases "c = CHR ''1''")
    case True
    then show ?thesis
      using Suc.IH [OF len dig, of "bs @ ''1''"] lt
      by (subst translate11bit_loop.simps) (simp add: cs binValue_Cons len)
  next
    case False
    with c have c0: "c = CHR ''0''" by simp
    show ?thesis
      using Suc.IH [OF len dig, of "bs @ ''0''"] lt
      by (subst translate11bit_loop.simps) (simp add: cs c0 binValue_Cons len)
  qed
qed

lemma translate11bit_split_loop:
  assumes "length cs = 11" "\<forall>c\<in>set cs. isBinDigit c"
  shows "translate11bit (split_loop 1024 0 cs) = cs"
proof -
  have "split_loop (2 ^ 10) 0 cs = 0 + binValue cs"
    using assms(1) by (intro split_loop_binValue) simp
  moreover have "translate11bit_loop (2 ^ 10) (binValue cs) '''' = '''' @ cs"
    using assms by (intro translate_loop_binValue) simp_all
  ultimately show ?thesis by (simp add: translate11bit_def)
qed

lemma split_loop_less:
  assumes "length cs = 11"
  shows "split_loop 1024 0 cs < 2048"
proof -
  have "split_loop (2 ^ 10) 0 cs = 0 + binValue cs"
    using assms by (intro split_loop_binValue) simp
  with binValue_less [of cs] assms show ?thesis by simp
qed

lemma and_mask_bit: "(b AND 2 ^ k \<noteq> 0) = bit b k" for b :: byte
  by (metis and_exp_eq_0_iff_not_bit)

lemma convertByteToBinString_bits:
  "convertByteToBinString b = map (bitChar b) [7, 6, 5, 4, 3, 2, 1, 0]"
  using and_mask_bit [of b 7] and_mask_bit [of b 6] and_mask_bit [of b 5] and_mask_bit [of b 4]
    and_mask_bit [of b 3] and_mask_bit [of b 2] and_mask_bit [of b 1] and_mask_bit [of b 0]
  by (simp add: convertByteToBinString_def bitChar_def)

lemma length_convertByteToBinString [simp]: "length (convertByteToBinString b) = 8"
  by (simp add: convertByteToBinString_bits)

lemma digits_convertByteToBinString: "c \<in> set (convertByteToBinString b) \<Longrightarrow> isBinDigit c"
  by (auto simp: convertByteToBinString_bits bitChar_def isBinDigit_def)

lemma binValue_bits: "binValue (map (bitChar b) (rev [0..<n])) = take_bit n (unat b)"
proof (induction n)
  case 0
  then show ?case by simp
next
  case (Suc n)
  have "bit (unat b) n = bit b n"
    by (simp add: bit_unsigned_iff)
  then show ?case using Suc
    by (simp add: binValue_Cons bitChar_def take_bit_Suc_from_most)
qed

lemma binValue_convertByteToBinString: "binValue (convertByteToBinString b) = unat b"
proof -
  have "rev [0..<8] = [7, 6, 5, 4, 3, 2, 1, 0::nat]" by (simp add: upt_rec)
  then have "binValue (convertByteToBinString b) = take_bit 8 (unat b)"
    using binValue_bits [of b 8] by (simp add: convertByteToBinString_bits)
  also have "\<dots> = unat b"
  proof -
    have "unat b < 2 ^ LENGTH(8)" by (rule unsigned_less)
    then show ?thesis by (simp add: take_bit_nat_eq_self)
  qed
  finally show ?thesis .
qed

lemma parse_convertByteToBinString:
  "convertBinStringToByte (convertByteToBinString b) = Some (unat b)"
proof -
  have tw: "takeWhile isBinDigit (convertByteToBinString b) = convertByteToBinString b"
    by (simp add: digits_convertByteToBinString)
  have ne: "convertByteToBinString b \<noteq> []"
    using length_convertByteToBinString [of b] by fastforce
  show ?thesis
    unfolding convertBinStringToByte_def parseInt2_def Let_def tw
    using ne by (simp add: binValue_convertByteToBinString)
qed

lemma matchAll11_exact:
  "length s = 11 * k \<Longrightarrow>
     concat (matchAll11 s) = s \<and> length (matchAll11 s) = k \<and> (\<forall>c\<in>set (matchAll11 s). length c = 11)"
proof (induction k arbitrary: s)
  case 0
  then show ?case by (simp add: matchAll11.simps)
next
  case (Suc k)
  then have len: "length (drop 11 s) = 11 * k" by simp
  have "matchAll11 s = take 11 s # matchAll11 (drop 11 s)"
    using Suc.prems by (subst matchAll11.simps) simp
  with Suc.IH [OF len] Suc.prems show ?case by simp
qed

lemma set_matchAll11: "c \<in> set (matchAll11 s) \<Longrightarrow> set c \<subseteq> set s"
proof (induction s rule: matchAll11.induct)
  case (1 s)
  show ?case
  proof (cases "length s < 11")
    case True
    with 1 show ?thesis by (simp add: matchAll11.simps)
  next
    case False
    with 1(2) have "c = take 11 s \<or> c \<in> set (matchAll11 (drop 11 s))"
      by (subst (asm) matchAll11.simps) simp
    then show ?thesis
      using 1(1) [OF False] set_take_subset [of 11 s] set_drop_subset [of 11 s] by blast
  qed
qed

lemma foldl_append_concat: "foldl (\<lambda>acc x. acc @ f x) a xs = a @ concat (map f xs)"
  by (induction xs arbitrary: a) simp_all

lemma foldl_if_append:
  "foldl (\<lambda>acc j. if P j then acc @ f j else acc) a js = a @ concat (map f (filter P js))"
  by (induction js arbitrary: a) simp_all

lemma filter_eq_upt: "v < n \<Longrightarrow> filter (\<lambda>j. j = v) [0..<n] = [v]"
proof (induction n)
  case 0
  then show ?case by simp
next
  case (Suc n)
  show ?case
  proof (cases "v = n")
    case True
    have "filter (\<lambda>j. j = n) [0..<n] = []" by (simp add: filter_empty_conv)
    with True show ?thesis by simp
  next
    case False
    with Suc show ?thesis by simp
  qed
qed

lemma wordBits_present:
  assumes "distinct wl" "v < length wl"
  shows "wordBits wl (wl ! v) = translate11bit v"
proof -
  have "filter (\<lambda>j. wl ! v = wl ! j) [0..<length wl] = filter (\<lambda>j. j = v) [0..<length wl]"
    using assms by (intro filter_cong) (auto simp: nth_eq_iff_index_eq)
  then show ?thesis
    using assms(2) by (simp add: wordBits_def foldl_if_append filter_eq_upt)
qed

lemma wordBits_absent:
  assumes "w \<notin> set wl"
  shows "wordBits wl w = ''''"
proof -
  have "filter (\<lambda>j. w = wl ! j) [0..<length wl] = []"
    using assms by (auto simp: filter_empty_conv)
  then show ?thesis by (simp add: wordBits_def foldl_if_append)
qed

lemma splitStr_no_sep: "sep \<notin> set w \<Longrightarrow> splitStr sep w = [w]"
  by (induction w) auto

lemma splitStr_sep: "sep \<notin> set w \<Longrightarrow> splitStr sep (w @ sep # r) = w # splitStr sep r"
  by (induction w) auto

lemma splitStr_join:
  "sep \<notin> set w \<Longrightarrow> \<forall>x\<in>set ws. sep \<notin> set x \<Longrightarrow>
     splitStr sep (w @ concat (map (\<lambda>x. sep # x) ws)) = w # ws"
proof (induction ws arbitrary: w)
  case Nil
  then show ?case by (simp add: splitStr_no_sep)
next
  case (Cons x xs)
  then show ?case by (simp add: splitStr_sep)
qed

lemma seq_loop_rebuild:
  "length ys = 33 - p \<Longrightarrow> p \<le> 33 \<Longrightarrow> length sq = 33 \<Longrightarrow>
     seq_loop p (concat (map convertByteToBinString ys)) sq = Some (Inr (take p sq @ ys))"
proof (induction ys arbitrary: p sq)
  case Nil
  then have "p = 33" by simp
  with Nil show ?case by (subst seq_loop.simps) (simp add: NUM_BYTES_def)
next
  case (Cons y ys)
  then have p: "p < 33" by simp
  have lt: "\<not> 255 < unat y"
  proof -
    have "unat y < 2 ^ LENGTH(8)" by (rule unsigned_less)
    then show ?thesis by simp
  qed
  have w: "writeUInt8 (Some (unat y)) p sq = Inr (sq[p := y])"
    using p Cons.prems lt by (simp add: writeUInt8_def)
  have rec: "seq_loop (Suc p) (concat (map convertByteToBinString ys)) (sq[p := y])
      = Some (Inr (take (Suc p) (sq[p := y]) @ ys))"
    using Cons.prems p by (intro Cons.IH) simp_all
  have tk: "take (Suc p) (sq[p := y]) = take p sq @ [y]"
    using p Cons.prems by (simp add: take_Suc_conv_app_nth)
  show ?case
    using p by (subst seq_loop.simps)
      (simp add: NUM_BYTES_def parse_convertByteToBinString w rec tk)
qed

lemma length_bits: "length (concat (map convertByteToBinString sq)) = 8 * length sq"
  by (induction sq) simp_all

lemma digits_bits: "c \<in> set (concat (map convertByteToBinString sq)) \<Longrightarrow> isBinDigit c"
  by (auto dest: digits_convertByteToBinString)

lemma drop1_join:
  "drop 1 (concat (map (\<lambda>v. '' '' @ f v) (a # as))) = f a @ concat (map (\<lambda>x. CHR '' '' # x) (map f as))"
  by (simp add: comp_def)

text \<open>
  Claim C2. For every 33-byte buffer (valid checksum or not), \<open>words()\<close> returns a phrase
  and \<open>calculateSequence\<close> on that phrase rebuilds exactly the buffer. The word list is
  the external BIP-39 list: 2048 distinct words, none containing a space.
\<close>

theorem words_calculateSequence_roundtrip:
  assumes len: "length (seq m) = NUM_BYTES + 1"
    and wl: "length (wordlist m) = 2048"
    and dist: "distinct (wordlist m)"
    and nosp: "\<forall>w\<in>set (wordlist m). CHR '' '' \<notin> set w"
    and same: "wordlist m' = wordlist m"
  shows "\<exists>phrase. words m = Inr phrase \<and> calculateSequence m' phrase = Some (Inr (m'\<lparr>seq := seq m\<rparr>))"
proof -
  define bits where "bits = concat (map convertByteToBinString (seq m))"
  define chunks where "chunks = matchAll11 bits"
  define arr where "arr = map (split_loop 1024 0) chunks"
  define phrase where
    "phrase = drop 1 (foldl (\<lambda>stringBuilder v. stringBuilder @ '' '' @ wordAt (wordlist m) v) [] arr)"
  have "length bits = 11 * 24"
    using len by (simp add: bits_def length_bits NUM_BYTES_def)
  from matchAll11_exact [OF this]
  have cat: "concat chunks = bits" and n: "length chunks = 24"
    and l11: "\<forall>c\<in>set chunks. length c = 11"
    by (simp_all add: chunks_def)
  have dig: "\<forall>c\<in>set chunks. \<forall>x\<in>set c. isBinDigit x"
    using set_matchAll11 [of _ bits] digits_bits [of _ "seq m"]
    unfolding chunks_def bits_def by blast
  have ne: "chunks \<noteq> []" using n by auto
  have m11: "match11 bits = Some chunks"
    using ne by (cases chunks) (simp_all add: match11_def chunks_def [symmetric])
  have w: "words m = Inr phrase"
    by (simp add: words_def split_def bits_def [symmetric] m11 arr_def phrase_def)
  have inr: "\<forall>v\<in>set arr. v < length (wordlist m)"
    using l11 split_loop_less wl by (auto simp: arr_def)
  obtain a as where arr: "arr = a # as"
    using ne by (cases arr) (auto simp: arr_def)
  have "phrase = drop 1 (concat (map (\<lambda>v. '' '' @ wordAt (wordlist m) v) arr))"
    by (simp add: phrase_def foldl_append_concat)
  then have ph: "phrase =
      wordAt (wordlist m) a @ concat (map (\<lambda>x. CHR '' '' # x) (map (wordAt (wordlist m)) as))"
    unfolding arr by (simp only: drop1_join)
  have nosp': "\<forall>v\<in>set arr. CHR '' '' \<notin> set (wordAt (wordlist m) v)"
    using inr nosp by (auto simp: wordAt_def)
  have sp: "splitStr CHR '' '' phrase = map (wordAt (wordlist m)) arr"
    unfolding ph using nosp' by (subst splitStr_join) (auto simp: arr)
  have "map (\<lambda>c. wordBits (wordlist m) (wordAt (wordlist m) (split_loop 1024 0 c))) chunks = chunks"
  proof (rule map_idI)
    fix c assume c: "c \<in> set chunks"
    then have lt: "split_loop 1024 0 c < length (wordlist m)"
      using l11 split_loop_less wl by auto
    show "wordBits (wordlist m) (wordAt (wordlist m) (split_loop 1024 0 c)) = c"
      using wordBits_present [OF dist lt] translate11bit_split_loop [of c] l11 dig c lt
      by (simp add: wordAt_def)
  qed
  then have "map (wordBits (wordlist m)) (map (wordAt (wordlist m)) arr) = chunks"
    by (simp add: arr_def comp_def)
  then have bs: "foldl (\<lambda>binString w. binString @ wordBits (wordlist m) w) [] (splitStr CHR '' '' phrase) = bits"
    by (simp add: foldl_append_concat sp cat)
  have "seq_loop 0 bits (replicate (NUM_BYTES + 1) 0) = Some (Inr (seq m))"
    using seq_loop_rebuild [of "seq m" 0 "replicate 33 0"] len
    by (simp add: bits_def NUM_BYTES_def)
  then have "calculateSequence m' phrase = Some (Inr (m'\<lparr>seq := seq m\<rparr>))"
    by (simp add: calculateSequence_def same bs)
  with w show ?thesis by blast
qed

lemma length_toyWordlist: "length toyWordlist = 2048"
  by (simp add: toyWordlist_def)

lemma distinct_toyWordlist: "distinct toyWordlist"
proof -
  have "inj_on (\<lambda>n. replicate (Suc n) CHR ''a'') (set [0..<2048])"
    by (rule inj_onI) (metis length_replicate nat.inject)
  then show ?thesis by (simp add: toyWordlist_def distinct_map)
qed

lemma toyWordlist_chars: "w \<in> set toyWordlist \<Longrightarrow> set w = {CHR ''a''}"
  by (auto simp: toyWordlist_def)

lemma parse_take8_le: "convertBinStringToByte (take 8 bs) = Some v \<Longrightarrow> v \<le> 255"
proof -
  assume a: "convertBinStringToByte (take 8 bs) = Some v"
  define ds where "ds = takeWhile isBinDigit (take 8 bs)"
  have "length ds \<le> 8"
    using length_takeWhile_le [of isBinDigit "take 8 bs"] by (simp add: ds_def)
  then have "(2::nat) ^ length ds \<le> 2 ^ 8" by (rule power_increasing) simp
  moreover have "v = binValue ds"
    using a by (auto simp: convertBinStringToByte_def parseInt2_def Let_def ds_def split: if_splits)
  ultimately show ?thesis using binValue_less [of ds] by simp
qed

lemma writeUInt8_chunk:
  "p < length sq \<Longrightarrow>
     writeUInt8 (convertBinStringToByte (take 8 bs)) p sq = Inr (sq[p := chunkByte (take 8 bs)])"
  using parse_take8_le [of bs]
  by (cases "convertBinStringToByte (take 8 bs)") (auto simp: writeUInt8_def chunkByte_def)

lemma seq_loop_total:
  "n = 33 - p \<Longrightarrow> p \<le> 33 \<Longrightarrow> length sq = 33 \<Longrightarrow>
     seq_loop p bs sq =
       Some (Inr (take p sq @ map (\<lambda>k. chunkByte (take 8 (drop (8 * k) bs))) [0..<n]))"
proof (induction n arbitrary: p bs sq)
  case 0
  then have "p = 33" by simp
  with 0 show ?case by (subst seq_loop.simps) (simp add: NUM_BYTES_def)
next
  case (Suc n)
  then have p: "p < 33" by simp
  have rec: "seq_loop (Suc p) (drop 8 bs) (sq[p := chunkByte (take 8 bs)]) =
      Some (Inr (take (Suc p) (sq[p := chunkByte (take 8 bs)]) @
        map (\<lambda>k. chunkByte (take 8 (drop (8 * k) (drop 8 bs)))) [0..<n]))"
    using Suc.prems by (intro Suc.IH) simp_all
  have tk: "take (Suc p) (sq[p := chunkByte (take 8 bs)]) = take p sq @ [chunkByte (take 8 bs)]"
    using p Suc.prems by (simp add: take_Suc_conv_app_nth)
  have mp: "map (\<lambda>k. chunkByte (take 8 (drop (8 * k) bs))) [0..<Suc n] =
      chunkByte (take 8 bs) # map (\<lambda>k. chunkByte (take 8 (drop (8 * k) (drop 8 bs)))) [0..<n]"
    by (simp add: map_upt_Suc add.commute del: upt_Suc)
  show ?case
    unfolding mp using p Suc.prems
    by (subst seq_loop.simps) (simp add: NUM_BYTES_def writeUInt8_chunk rec tk)
qed

lemma concat_map_filter_empty:
  "(\<And>x. \<not> P x \<Longrightarrow> f x = []) \<Longrightarrow> concat (map f xs) = concat (map f (filter P xs))"
  by (induction xs) simp_all

lemma calculateSequence_bytes:
  "calculateSequence m ws =
     Some (Inr (m\<lparr>seq := map (\<lambda>k. chunkByte (take 8 (drop (8 * k) (presentBits (wordlist m) ws))))
                            [0..<NUM_BYTES + 1]\<rparr>))"
proof -
  have "foldl (\<lambda>binString w. binString @ wordBits (wordlist m) w) [] (splitStr CHR '' '' ws)
      = presentBits (wordlist m) ws"
    unfolding presentBits_def foldl_append_concat
    using concat_map_filter_empty [of "\<lambda>w. w \<in> set (wordlist m)" "wordBits (wordlist m)"]
    by (simp add: wordBits_absent)
  moreover have "seq_loop 0 bs (replicate (NUM_BYTES + 1) 0) =
      Some (Inr (map (\<lambda>k. chunkByte (take 8 (drop (8 * k) bs))) [0..<NUM_BYTES + 1]))" for bs
    using seq_loop_total [of 33 0 "replicate 33 0" bs] by (simp add: NUM_BYTES_def)
  ultimately show ?thesis by (simp add: calculateSequence_def)
qed

lemma toy_nth1: "toyWordlist ! Suc 0 = ''aa''"
  by (simp add: toyWordlist_def)

lemma translate11bit_1: "translate11bit (Suc 0) = ''00000000001''"
  by (simp add: translate11bit_def translate11bit_loop.simps)

text \<open>
  Claim C4, as corrected. \<open>calculateSequence\<close> has no error path: for every word list
  and every phrase it returns a 33-byte buffer. A word that is not in the list adds no
  bits; byte \<open>k\<close> of the result is the value of bits \<open>8k .. 8k+7\<close> of the bits of the
  words that are in the list, a shorter last piece is read as it stands and a missing
  piece is stored as 0.
\<close>

theorem calculateSequence_never_fails:
  "calculateSequence m ws =
     Some (Inr (m\<lparr>seq := map (\<lambda>k. chunkByte (take 8 (drop (8 * k) (presentBits (wordlist m) ws))))
                            [0..<NUM_BYTES + 1]\<rparr>))
   \<and> length (map (\<lambda>k. chunkByte (take 8 (drop (8 * k) (presentBits (wordlist m) ws))))
                [0..<NUM_BYTES + 1]) = 33"
  by (simp add: calculateSequence_bytes NUM_BYTES_def)

text \<open>
  Claim C4 as stated fails: the phrase "zebra" is not in the word list and the phrase "aa"
  is one word of the list (11 bits, not 264); both are decoded to a 33-byte buffer
  without any error.
\<close>

theorem calculateSequence_no_error_counterexample:
  "''zebra'' \<notin> set (wordlist toyMnemonic)
   \<and> calculateSequence toyMnemonic ''zebra'' = Some (Inr (toyMnemonic\<lparr>seq := replicate 33 0\<rparr>))
   \<and> ''aa'' \<in> set (wordlist toyMnemonic)
   \<and> calculateSequence toyMnemonic ''aa'' = Some (Inr (toyMnemonic\<lparr>seq := (replicate 33 0)[1 := 1]\<rparr>))"
proof -
  have z: "''zebra'' \<notin> set toyWordlist"
    using toyWordlist_chars [of "''zebra''"] by auto
  have a: "''aa'' \<in> set toyWordlist"
    using toy_nth1 nth_mem [of "Suc 0" toyWordlist] by (simp add: length_toyWordlist)
  have pz: "presentBits toyWordlist ''zebra'' = []"
    using z by (simp add: presentBits_def)
  have pa: "presentBits toyWordlist ''aa'' = ''00000000001''"
    using a wordBits_present [OF distinct_toyWordlist, of 1]
    by (simp add: presentBits_def length_toyWordlist toy_nth1 translate11bit_1)
  have c0: "chunkByte [] = 0"
    by (simp add: chunkByte_def convertBinStringToByte_def parseInt2_def)
  have rz: "map (\<lambda>k. chunkByte []) [0..<33] = replicate 33 0"
    by (simp add: c0 map_replicate_const)
  have ra: "map (\<lambda>k. chunkByte (take 8 (drop (8 * k) ''00000000001''))) [0..<33] = (replicate 33 0)[1 := 1]"
    by code_simp
  show ?thesis
    using z a calculateSequence_bytes [of toyMnemonic "''zebra''"]
      calculateSequence_bytes [of toyMnemonic "''aa''"]
    by (simp add: toyMnemonic_def pz pa rz ra NUM_BYTES_def)
qed

theorem words_calculateSequence_roundtrip_witness:
  "length (seq toyMnemonic) = NUM_BYTES + 1 \<and> length (wordlist toyMnemonic) = 2048
   \<and> distinct (wordlist toyMnemonic) \<and> CHR '' '' \<notin> set (concat (wordlist toyMnemonic))
   \<and> (\<exists>phrase. words toyMnemonic = Inr phrase
        \<and> calculateSequence toyMnemonic phrase = Some (Inr toyMnemonic))"
proof -
  have 1: "length (seq toyMnemonic) = NUM_BYTES + 1"
    by (simp add: toyMnemonic_def NUM_BYTES_def)
  have 2: "length (wordlist toyMnemonic) = 2048"
    by (simp add: toyMnemonic_def length_toyWordlist)
  have 3: "distinct (wordlist toyMnemonic)"
    by (simp add: toyMnemonic_def distinct_toyWordlist)
  have 4: "\<forall>w\<in>set (wordlist toyMnemonic). CHR '' '' \<notin> set w"
    using toyWordlist_chars by (auto simp: toyMnemonic_def)
  have 5: "CHR '' '' \<notin> set (concat (wordlist toyMnemonic))"
    using 4 by auto
  show ?thesis
    using words_calculateSequence_roundtrip [OF 1 2 3 4 refl] 1 2 3 5 by simp
qed

section \<open>Results for transaction.js\<close>

lemma tx_id_sig_update: "tx_id C (tx\<lparr>sig := s\<rparr>) = tx_id C tx"
  by (simp add: tx_id_def)

lemma tx_id_fields:
  "tx_from a = tx_from b \<Longrightarrow> nonce a = nonce b \<Longrightarrow> pubKey a = pubKey b \<Longrightarrow> outputs a = outputs b
     \<Longrightarrow> fee a = fee b \<Longrightarrow> data a = data b \<Longrightarrow> tx_id C a = tx_id C b"
  by (simp add: tx_id_def)

lemma sign_tx_id: "sign C privKey tx = Inr tx' \<Longrightarrow> tx_id C tx' = tx_id C tx"
  by (auto simp: sign_def tx_id_sig_update split: sum.splits)

lemma signAll_tx_id: "signAll C privKeys tx = Inr tx' \<Longrightarrow> tx_id C tx' = tx_id C tx"
proof (induction privKeys arbitrary: tx)
  case Nil
  then show ?case by simp
next
  case (Cons pk pks)
  then obtain tx1 where 1: "sign C pk tx = Inr tx1" and 2: "signAll C pks tx1 = Inr tx'"
    by (auto split: sum.splits)
  from Cons.IH [OF 2] sign_tx_id [OF 1] show ?case by simp
qed

lemma quote_plain: "list_all (\<lambda>c. 32 \<le> (of_char c :: nat) \<and> c \<noteq> CHR 0x22 \<and> c \<noteq> CHR 0x5C) k \<Longrightarrow> quote k = [CHR 0x22] @ k @ [CHR 0x22]"
proof -
  assume a: "list_all (\<lambda>c. 32 \<le> (of_char c :: nat) \<and> c \<noteq> CHR 0x22 \<and> c \<noteq> CHR 0x5C) k"
  have "concat (map escapeChar k) = k" using a
  proof (induction k)
    case Nil
    then show ?case by simp
  next
    case (Cons c k)
    then have p: "32 \<le> (of_char c :: nat)" "c \<noteq> CHR 0x22" "c \<noteq> CHR 0x5C" by simp_all
    from p(1) have "c \<noteq> CHR 0x08" "c \<noteq> CHR 0x0C" "c \<noteq> CHR 0x0A" "c \<noteq> CHR 0x0D" "c \<noteq> CHR 0x09"
      by auto
    with p have "escapeChar c = [c]" by (simp add: escapeChar_def)
    with Cons show ?case by simp
  qed
  then show ?thesis by (simp add: quote_def)
qed

lemma outputs_encoding:
  "stringify num (JArr (map (\<lambda>out. JObj [(''amount'', JNum (amount out)), (''address'', JStr (address out))]) outs))
     = ''['' @ joinWith '',''
                 (map (\<lambda>out. ''{'' @ member ''amount'' (stringify num (JNum (amount out)))
                              @ '','' @ member ''address'' (quote (address out)) @ ''}'') outs)
        @ '']''"
proof -
  have q: "quote ''amount'' = [CHR 0x22] @ ''amount'' @ [CHR 0x22]"
      "quote ''address'' = [CHR 0x22] @ ''address'' @ [CHR 0x22]"
    by (rule quote_plain, simp)+
  show ?thesis
    by (simp add: q comp_def member_def del: stringify.simps(3))
qed

lemma tx_id_encoding:
  "tx_id C tx =
     toHex (sha256 C (''TX'' @ encodeFields (numberToString C) (tx_from tx) (nonce tx) (pubKey tx)
                                 (outputs tx) (fee tx) (data tx)))"
proof -
  have q: "quote ''from'' = [CHR 0x22] @ ''from'' @ [CHR 0x22]"
      "quote ''nonce'' = [CHR 0x22] @ ''nonce'' @ [CHR 0x22]"
      "quote ''pubKey'' = [CHR 0x22] @ ''pubKey'' @ [CHR 0x22]"
      "quote ''outputs'' = [CHR 0x22] @ ''outputs'' @ [CHR 0x22]"
      "quote ''fee'' = [CHR 0x22] @ ''fee'' @ [CHR 0x22]"
      "quote ''data'' = [CHR 0x22] @ ''data'' @ [CHR 0x22]"
    by (rule quote_plain, simp)+
  have "stringify (numberToString C) (JObj
       [(''from'', JArr (map JStr (tx_from tx))),
        (''nonce'', JNum (nonce tx)),
        (''pubKey'', JArr (map JStr (pubKey tx))),
        (''outputs'', JArr (map (\<lambda>out. JObj [(''amount'', JNum (amount out)), (''address'', JStr (address out))])
                              (outputs tx))),
        (''fee'', JNum (fee tx)),
        (''data'', data tx)])
     = encodeFields (numberToString C) (tx_from tx) (nonce tx) (pubKey tx) (outputs tx) (fee tx) (data tx)"
    unfolding encodeFields_def outputs_encoding [symmetric]
    by (simp add: q member_def del: stringify.simps(3,5))
  then show ?thesis
    by (simp add: tx_id_def hash_def TX_CONST_def)
qed

text \<open>
  Claim C5. The id is the hash of "TX" followed by the encoding of the fields from,
  nonce, pubKey, outputs, fee and data, and of nothing else: \<open>encodeFields\<close> is that
  encoding, stated on the six fields alone (the JSON object with these six members, in
  this order). So two transactions that agree on the six fields have the same id,
  whatever their sig lists are, and signing any number of times leaves the id unchanged.
\<close>

theorem tx_id_excludes_sig:
  "tx_id C tx =
     toHex (sha256 C (''TX'' @ encodeFields (numberToString C) (tx_from tx) (nonce tx) (pubKey tx)
                                 (outputs tx) (fee tx) (data tx)))
   \<and> (tx_from a = tx_from b \<and> nonce a = nonce b \<and> pubKey a = pubKey b \<and> outputs a = outputs b
      \<and> fee a = fee b \<and> data a = data b \<longrightarrow> tx_id C a = tx_id C b)
   \<and> (signAll C privKeys tx = Inr tx' \<longrightarrow> tx_id C tx' = tx_id C tx)"
  using tx_id_encoding [of C tx] tx_id_fields [of a b C] signAll_tx_id [of C privKeys tx tx'] by blast

lemma toy_signAll:
  "signAll toyCrypto [''K0'', ''K1''] toyTx =
     Inr (toyTx\<lparr>sig := [''K0|'' @ tx_id toyCrypto toyTx, ''K1|'' @ tx_id toyCrypto toyTx]\<rparr>)"
  by (simp add: sign_def toyCrypto_def tx_id_sig_update) (simp add: toyTx_def)

lemma toy_encoding_fields:
  "encodeFields toyNumberToString [''4b30''] (nonce toyTx) (pubKey toyTx) (outputs toyTx) (fee toyTx) (data toyTx)
     \<noteq> encodeFields toyNumberToString (tx_from toyTx) (nonce toyTx) (pubKey toyTx) (outputs toyTx) (fee toyTx) (data toyTx)
   \<and> encodeFields toyNumberToString (tx_from toyTx) (ofInt 7) (pubKey toyTx) (outputs toyTx) (fee toyTx) (data toyTx)
     \<noteq> encodeFields toyNumberToString (tx_from toyTx) (nonce toyTx) (pubKey toyTx) (outputs toyTx) (fee toyTx) (data toyTx)
   \<and> encodeFields toyNumberToString (tx_from toyTx) (nonce toyTx) [''K0''] (outputs toyTx) (fee toyTx) (data toyTx)
     \<noteq> encodeFields toyNumberToString (tx_from toyTx) (nonce toyTx) (pubKey toyTx) (outputs toyTx) (fee toyTx) (data toyTx)
   \<and> encodeFields toyNumberToString (tx_from toyTx) (nonce toyTx) (pubKey toyTx) [] (fee toyTx) (data toyTx)
     \<noteq> encodeFields toyNumberToString (tx_from toyTx) (nonce toyTx) (pubKey toyTx) (outputs toyTx) (fee toyTx) (data toyTx)
   \<and> encodeFields toyNumberToString (tx_from toyTx) (nonce toyTx) (pubKey toyTx) (outputs toyTx) (ofInt 2) (data toyTx)
     \<noteq> encodeFields toyNumberToString (tx_from toyTx) (nonce toyTx) (pubKey toyTx) (outputs toyTx) (fee toyTx) (data toyTx)
   \<and> encodeFields toyNumberToString (tx_from toyTx) (nonce toyTx) (pubKey toyTx) (outputs toyTx) (fee toyTx) JNull
     \<noteq> encodeFields toyNumberToString (tx_from toyTx) (nonce toyTx) (pubKey toyTx) (outputs toyTx) (fee toyTx) (data toyTx)"
  by code_simp

theorem tx_id_excludes_sig_witness:
  "sig toyTxSigned \<noteq> sig toyTx
   \<and> tx_id toyCrypto toyTxSigned = tx_id toyCrypto toyTx
   \<and> tx_id toyCrypto toyTx =
       toHex (sha256 toyCrypto (''TX'' @ encodeFields toyNumberToString (tx_from toyTx) (nonce toyTx)
                                           (pubKey toyTx) (outputs toyTx) (fee toyTx) (data toyTx)))
   \<and> encodeFields toyNumberToString [''4b30''] (nonce toyTx) (pubKey toyTx) (outputs toyTx) (fee toyTx) (data toyTx)
     \<noteq> encodeFields toyNumberToString (tx_from toyTx) (nonce toyTx) (pubKey toyTx) (outputs toyTx) (fee toyTx) (data toyTx)
   \<and> encodeFields toyNumberToString (tx_from toyTx) (ofInt 7) (pubKey toyTx) (outputs toyTx) (fee toyTx) (data toyTx)
     \<noteq> encodeFields toyNumberToString (tx_from toyTx) (nonce toyTx) (pubKey toyTx) (outputs toyTx) (fee toyTx) (data toyTx)
   \<and> encodeFields toyNumberToString (tx_from toyTx) (nonce toyTx) [''K0''] (outputs toyTx) (fee toyTx) (data toyTx)
     \<noteq> encodeFields toyNumberToString (tx_from toyTx) (nonce toyTx) (pubKey toyTx) (outputs toyTx) (fee toyTx) (data toyTx)
   \<and> encodeFields toyNumberToString (tx_from toyTx) (nonce toyTx) (pubKey toyTx) [] (fee toyTx) (data toyTx)
     \<noteq> encodeFields toyNumberToString (tx_from toyTx) (nonce toyTx) (pubKey toyTx) (outputs toyTx) (fee toyTx) (data toyTx)
   \<and> encodeFields toyNumberToString (tx_from toyTx) (nonce toyTx) (pubKey toyTx) (outputs toyTx) (ofInt 2) (data toyTx)
     \<noteq> encodeFields toyNumberToString (tx_from toyTx) (nonce toyTx) (pubKey toyTx) (outputs toyTx) (fee toyTx) (data toyTx)
   \<and> encodeFields toyNumberToString (tx_from toyTx) (nonce toyTx) (pubKey toyTx) (outputs toyTx) (fee toyTx) JNull
     \<noteq> encodeFields toyNumberToString (tx_from toyTx) (nonce toyTx) (pubKey toyTx) (outputs toyTx) (fee toyTx) (data toyTx)
   \<and> signAll toyCrypto [''K0'', ''K1''] toyTx =
       Inr (toyTx\<lparr>sig := [''K0|'' @ tx_id toyCrypto toyTx, ''K1|'' @ tx_id toyCrypto toyTx]\<rparr>)
   \<and> tx_id toyCrypto (toyTx\<lparr>sig := [''K0|'' @ tx_id toyCrypto toyTx, ''K1|'' @ tx_id toyCrypto toyTx]\<rparr>)
       = tx_id toyCrypto toyTx"
proof -
  have f: "tx_from toyTxSigned = tx_from toyTx \<and> nonce toyTxSigned = nonce toyTx
      \<and> pubKey toyTxSigned = pubKey toyTx \<and> outputs toyTxSigned = outputs toyTx
      \<and> fee toyTxSigned = fee toyTx \<and> data toyTxSigned = data toyTx"
    by (simp add: toyTxSigned_def)
  have s: "sig toyTxSigned \<noteq> sig toyTx"
    by (simp add: toyTxSigned_def toyTx_def)
  have n: "numberToString toyCrypto = toyNumberToString"
    by (simp add: toyCrypto_def)
  note T = tx_id_excludes_sig [of toyCrypto toyTx toyTxSigned toyTx "[''K0'', ''K1'']"
        "toyTx\<lparr>sig := [''K0|'' @ tx_id toyCrypto toyTx, ''K1|'' @ tx_id toyCrypto toyTx]\<rparr>"]
  from T have "tx_id toyCrypto toyTx =
       toHex (sha256 toyCrypto (''TX'' @ encodeFields (numberToString toyCrypto) (tx_from toyTx) (nonce toyTx)
                                           (pubKey toyTx) (outputs toyTx) (fee toyTx) (data toyTx)))"
    by (rule conjunct1)
  then have 1: "tx_id toyCrypto toyTx =
       toHex (sha256 toyCrypto (''TX'' @ encodeFields toyNumberToString (tx_from toyTx) (nonce toyTx)
                                           (pubKey toyTx) (outputs toyTx) (fee toyTx) (data toyTx)))"
    by (simp only: n)
  from T f have 2: "tx_id toyCrypto toyTxSigned = tx_id toyCrypto toyTx"
    by blast
  from T toy_signAll
  have 3: "tx_id toyCrypto (toyTx\<lparr>sig := [''K0|'' @ tx_id toyCrypto toyTx, ''K1|'' @ tx_id toyCrypto toyTx]\<rparr>)
       = tx_id toyCrypto toyTx"
    by blast
  from s 2 1 toy_encoding_fields toy_signAll 3 show ?thesis
    by blast
qed

lemma toy_addr_K1: "calcAddress toyCrypto (Some ''K1'') = ''4b31''"
  by (simp add: calcAddress_def hash_def toStr_def toyCrypto_def toHex_def byteToHex_def hexDigit_def)

text \<open>
  Claim C1. \<open>validSignature\<close> returns inside the first pass of its loop, so only index 0
  is examined. The transaction below has two inputs; index 0 passes the three checks,
  index 1 fails two of them (the address does not match the key, and there is no second
  signature), and the result is \<open>true\<close>.
\<close>

theorem validSignature_stops_at_first_index:
  "validSignature toyCrypto toyTxSigned = Inr (Some True)
   \<and> length (tx_from toyTxSigned) = 2
   \<and> \<not> addressMatchesKey toyCrypto (tx_from toyTxSigned ! 1) (nth_opt (pubKey toyTxSigned) 1)
   \<and> nth_opt (sig toyTxSigned) 1 = None"
proof -
  have id: "tx_id toyCrypto toyTxSigned = tx_id toyCrypto toyTx"
    by (simp add: toyTxSigned_def tx_id_sig_update)
  have v: "validSignature toyCrypto toyTxSigned = Inr (Some True)"
    unfolding validSignature_def Let_def id
    by (simp add: toyTxSigned_def toyTx_def addressMatchesKey_def nth_opt_def verifySignature_def)
      (simp add: toyCrypto_def)
  have a: "\<not> addressMatchesKey toyCrypto (tx_from toyTxSigned ! 1) (nth_opt (pubKey toyTxSigned) 1)"
    by (simp add: addressMatchesKey_def toyTxSigned_def toyTx_def nth_opt_def toy_addr_K1)
  have s: "nth_opt (sig toyTxSigned) 1 = None"
    by (simp add: toyTxSigned_def nth_opt_def)
  have l: "length (tx_from toyTxSigned) = 2"
    by (simp add: toyTxSigned_def toyTx_def)
  from v a s l show ?thesis by simp
qed

section \<open>Results for client.js\<close>

lemma bitLength_le: "n < 2 ^ k \<Longrightarrow> bitLength n \<le> k"
proof (induction k arbitrary: n)
  case 0
  then show ?case by (simp add: bitLength.simps)
next
  case (Suc k)
  show ?case
  proof (cases "n \<le> 0")
    case True
    then show ?thesis by (simp add: bitLength.simps)
  next
    case False
    from Suc.prems have "n div 2 < 2 ^ k" by simp
    from Suc.IH [OF this] False show ?thesis by (subst bitLength.simps) simp
  qed
qed

lemma normalize_zero [simp]: "normalizeNum 0 e = Finite 0 0"
  by (simp add: normalizeNum.simps)

lemma normalize_double: "m \<noteq> 0 \<Longrightarrow> normalizeNum (2 * m) e = normalizeNum m (e + 1)"
  by (subst normalizeNum.simps) simp

lemma normalize_shift: "normalizeNum (m * 2 ^ k) e = normalizeNum m (e + int k)"
proof (cases "m = 0")
  case True
  then show ?thesis by simp
next
  case False
  show ?thesis
  proof (induction k arbitrary: e)
    case 0
    then show ?case by simp
  next
    case (Suc k)
    have "m * 2 ^ Suc k = 2 * (m * 2 ^ k)" by simp
    then have "normalizeNum (m * 2 ^ Suc k) e = normalizeNum (2 * (m * 2 ^ k)) e" by (rule arg_cong)
    also have "\<dots> = normalizeNum (m * 2 ^ k) (e + 1)" using False by (intro normalize_double) simp
    also have "\<dots> = normalizeNum m (e + 1 + int k)" by (rule Suc.IH)
    finally show ?case by (simp add: add.commute add.left_commute)
  qed
qed

lemma normalize_form: "m \<noteq> 0 \<Longrightarrow> \<exists>m' k. normalizeNum m e = Finite m' (e + int k) \<and> m = m' * 2 ^ k \<and> odd m'"
proof (induction m e rule: normalizeNum.induct)
  case (1 m e)
  show ?case
  proof (cases "even m")
    case True
    with 1 have ne: "m div 2 \<noteq> 0" by auto
    from 1(1) [OF "1.prems" True ne] obtain m' k
      where a: "normalizeNum (m div 2) (e + 1) = Finite m' (e + 1 + int k)" and b: "m div 2 = m' * 2 ^ k" and c: "odd m'"
      by blast
    have "normalizeNum m e = Finite m' (e + int (Suc k))"
      using "1.prems" True a by (subst normalizeNum.simps) simp
    moreover have "m = m' * 2 ^ Suc k" using True b by auto
    ultimately show ?thesis using c by blast
  next
    case False
    then have "normalizeNum m e = Finite m (e + int 0)" using "1.prems" by (subst normalizeNum.simps) simp
    with False show ?thesis by (intro exI [of _ m] exI [of _ 0]) simp
  qed
qed

lemma roundDouble_small:
  assumes "\<bar>x\<bar> < 2 ^ 53" and "e < 971"
  shows "roundDouble x e = normalizeNum x e"
proof -
  from bitLength_le [OF assms(1)] have d: "bitLength \<bar>x\<bar> - 53 = 0" by simp
  have s: "(if x < 0 then - \<bar>x\<bar> else \<bar>x\<bar>) = x" by simp
  show ?thesis unfolding roundDouble_def Let_def d using assms(2) by (simp add: s del: abs_if)
qed

lemma ofInt_small: "\<bar>n\<bar> < 2 ^ 53 \<Longrightarrow> ofInt n = normalizeNum n 0"
  by (simp add: ofInt_def roundDouble_small)

lemma ofInt_form:
  assumes "\<bar>n\<bar> < 2 ^ 53"
  obtains m k where "ofInt n = Finite m (int k)" "n = m * 2 ^ k" "k < 53"
proof (cases "n = 0")
  case True
  have "ofInt n = Finite 0 (int 0)" using True by (simp add: ofInt_small)
  moreover have "n = 0 * 2 ^ 0" using True by simp
  ultimately show ?thesis using that [of 0 0] by simp
next
  case False
  from normalize_form [OF False, of 0] obtain m k
    where a: "normalizeNum n 0 = Finite m (int k)" and b: "n = m * 2 ^ k" and c: "odd m"
    by auto
  from c have "m \<noteq> 0" by auto
  then have "1 \<le> \<bar>m\<bar>" by simp
  then have "(2::int) ^ k \<le> \<bar>m\<bar> * 2 ^ k" by (simp add: mult_le_cancel_right1)
  also have "\<dots> = \<bar>n\<bar>" by (simp add: b abs_mult)
  finally have "(2::int) ^ k < 2 ^ 53" using assms by simp
  then have "k < 53" by (rule power_less_imp_less_exp [rotated]) simp
  have "ofInt n = Finite m (int k)" using a by (simp only: ofInt_small [OF assms])
  from that [OF this b \<open>k < 53\<close>] show ?thesis .
qed

lemma jsAdd_ofInt:
  assumes a: "\<bar>a\<bar> < 2 ^ 53" and b: "\<bar>b\<bar> < 2 ^ 53" and ab: "\<bar>a + b\<bar> < 2 ^ 53"
  shows "jsAdd (ofInt a) (ofInt b) = ofInt (a + b)"
proof -
  from a obtain m1 k1 where 1: "ofInt a = Finite m1 (int k1)" "a = m1 * 2 ^ k1" "k1 < 53"
    by (rule ofInt_form)
  from b obtain m2 k2 where 2: "ofInt b = Finite m2 (int k2)" "b = m2 * 2 ^ k2" "k2 < 53"
    by (rule ofInt_form)
  define km where "km = min k1 k2"
  define M where "M = m1 * 2 ^ (k1 - km) + m2 * 2 ^ (k2 - km)"
  have e: "min (int k1) (int k2) = int km" by (simp add: km_def)
  have n1: "nat (int k1 - int km) = k1 - km" and n2: "nat (int k2 - int km) = k2 - km"
    by (simp_all add: km_def)
  have p1: "(2::int) ^ (k1 - km) * 2 ^ km = 2 ^ k1" and p2: "(2::int) ^ (k2 - km) * 2 ^ km = 2 ^ k2"
    by (simp_all add: km_def power_add [symmetric])
  have val: "M * 2 ^ km = a + b"
    by (simp add: M_def distrib_right mult.assoc p1 p2 1(2) 2(2))
  have "\<bar>M\<bar> \<le> \<bar>M\<bar> * 2 ^ km" by (simp add: mult_le_cancel_left1)
  also have "\<dots> = \<bar>a + b\<bar>" by (simp add: val [symmetric] abs_mult)
  finally have small: "\<bar>M\<bar> < 2 ^ 53" using ab by simp
  have km: "int km < 971" using 1(3) by (simp add: km_def)
  have "jsAdd (ofInt a) (ofInt b) = roundDouble M (int km)"
    by (simp add: 1(1) 2(1) e n1 n2 M_def Let_def)
  also have "\<dots> = normalizeNum M (int km)" using small km by (rule roundDouble_small)
  also have "\<dots> = normalizeNum (M * 2 ^ km) 0" by (simp add: normalize_shift)
  also have "\<dots> = ofInt (a + b)" by (simp only: val ofInt_small [OF ab])
  finally show ?thesis .
qed

lemma jsGt_ofInt:
  assumes a: "\<bar>a\<bar> < 2 ^ 53" and b: "\<bar>b\<bar> < 2 ^ 53"
  shows "jsGt (ofInt a) (ofInt b) = (b < a)"
proof -
  from a obtain m1 k1 where 1: "ofInt a = Finite m1 (int k1)" "a = m1 * 2 ^ k1" "k1 < 53"
    by (rule ofInt_form)
  from b obtain m2 k2 where 2: "ofInt b = Finite m2 (int k2)" "b = m2 * 2 ^ k2" "k2 < 53"
    by (rule ofInt_form)
  define km where "km = min k1 k2"
  have e: "min (int k1) (int k2) = int km" by (simp add: km_def)
  have n1: "nat (int k1 - int km) = k1 - km" and n2: "nat (int k2 - int km) = k2 - km"
    by (simp_all add: km_def)
  have p1: "(2::int) ^ (k1 - km) * 2 ^ km = 2 ^ k1" and p2: "(2::int) ^ (k2 - km) * 2 ^ km = 2 ^ k2"
    by (simp_all add: km_def power_add [symmetric])
  have "jsGt (ofInt a) (ofInt b) = (m2 * 2 ^ (k2 - km) < m1 * 2 ^ (k1 - km))"
    by (simp add: 1(1) 2(1) e n1 n2 Let_def)
  also have "\<dots> = (m2 * 2 ^ (k2 - km) * 2 ^ km < m1 * 2 ^ (k1 - km) * 2 ^ km)"
    by simp
  also have "\<dots> = (b < a)"
    by (simp only: mult.assoc p1 p2 1(2) [symmetric] 2(2) [symmetric])
  finally show ?thesis .
qed

lemma sum_exact:
  assumes "map g xs = map (\<lambda>n. ofInt (int n)) as" and "int c + int (sum_list as) < 2 ^ 53"
  shows "foldl (\<lambda>t x. jsAdd t (g x)) (ofInt (int c)) xs = ofInt (int c + int (sum_list as))"
  using assms
proof (induction xs arbitrary: c as)
  case Nil
  then show ?case by simp
next
  case (Cons x xs)
  from Cons.prems(1) obtain n as' where as: "as = n # as'" and n: "g x = ofInt (int n)"
    and rest: "map g xs = map (\<lambda>n. ofInt (int n)) as'"
    by (cases as) auto
  from Cons.prems(2) as have b: "int (c + n) + int (sum_list as') < 2 ^ 53" by simp
  then have "\<bar>int c\<bar> < 2 ^ 53" "\<bar>int n\<bar> < 2 ^ 53" "\<bar>int c + int n\<bar> < 2 ^ 53" by simp_all
  then have "jsAdd (ofInt (int c)) (ofInt (int n)) = ofInt (int c + int n)" by (rule jsAdd_ofInt)
  then have "foldl (\<lambda>t x. jsAdd t (g x)) (ofInt (int c)) (x # xs)
      = foldl (\<lambda>t x. jsAdd t (g x)) (ofInt (int (c + n))) xs"
    by (simp add: n)
  also have "\<dots> = ofInt (int (c + n) + int (sum_list as'))" using rest b by (rule Cons.IH)
  finally show ?case by (simp add: as add.assoc)
qed

lemma sum_exact0:
  assumes "map g xs = map (\<lambda>n. ofInt (int n)) as" and "sum_list as < 2 ^ 53"
  shows "foldl (\<lambda>t x. jsAdd t (g x)) (ofInt 0) xs = ofInt (int (sum_list as))"
proof -
  from assms(2) have "int (sum_list as) < 2 ^ 53"
    by (metis of_nat_less_iff of_nat_numeral of_nat_power)
  then have "int 0 + int (sum_list as) < 2 ^ 53" by simp
  with assms(1) have "foldl (\<lambda>t x. jsAdd t (g x)) (ofInt (int 0)) xs = ofInt (int 0 + int (sum_list as))"
    by (rule sum_exact)
  then show ?thesis by simp
qed

lemma balance_exact:
  assumes lcb: "lastConfirmedBlock s = Some lcb"
    and bal: "map (\<lambda>w. balanceOf E lcb (Some (address_w w))) (wallet s) = map (\<lambda>n. ofInt (int n)) bs"
    and bound: "sum_list bs < 2 ^ 53"
  shows "getConfirmedBalance E s = Inr (ofInt (int (sum_list bs)))"
proof (cases "wallet s = []")
  case True
  with bal have "bs = []" by simp
  with True show ?thesis by (simp add: getConfirmedBalance_def)
next
  case False
  from bal bound
  have "foldl (\<lambda>t w. jsAdd t (balanceOf E lcb (Some (address_w w)))) (ofInt 0) (wallet s)
      = ofInt (int (sum_list bs))"
    by (rule sum_exact0)
  with False lcb show ?thesis by (simp add: getConfirmedBalance_def)
qed

text \<open>
  Claim C8, as corrected. The total that \<open>postTransaction\<close> compares with the balance is
  the one it computes: the amounts added in order to 0, then the fee, every sum rounded
  to a double. When that total is greater than the balance returned by
  \<open>getConfirmedBalance\<close>, the call throws "Not enough money!" and the client is exactly
  as it was before the call: the wallet, \<open>pendingOutgoingTransactions\<close> and the list of
  messages sent on the network are unchanged. When the amounts, the fee and the
  balances of the wallet slots are natural numbers with sums below \<open>2 ^ 53\<close>, the total
  and the balance computed are these sums, so the call throws whenever the sum of the
  amounts and the fee exceeds the sum of the balances.
\<close>

theorem postTransaction_insufficient_funds:
  "(getConfirmedBalance E s = Inr bal
      \<and> jsGt (jsAdd (foldl (\<lambda>t out. jsAdd t (amount out)) (ofInt 0) outs) f) bal
      \<longrightarrow> postTransaction E s outs f = (s, Inl (Error ''Not enough money!'')))
   \<and> (lastConfirmedBlock s = Some lcb
      \<and> map (\<lambda>w. balanceOf E lcb (Some (address_w w))) (wallet s) = map (\<lambda>n. ofInt (int n)) bs
      \<and> map amount outs = map (\<lambda>n. ofInt (int n)) as \<and> f = ofInt (int fn)
      \<and> sum_list as + fn < 2 ^ 53 \<and> sum_list bs < sum_list as + fn
      \<longrightarrow> postTransaction E s outs f = (s, Inl (Error ''Not enough money!'')))"
proof (intro conjI impI)
  assume "getConfirmedBalance E s = Inr bal
      \<and> jsGt (jsAdd (foldl (\<lambda>t out. jsAdd t (amount out)) (ofInt 0) outs) f) bal"
  then show "postTransaction E s outs f = (s, Inl (Error ''Not enough money!''))"
    by (simp add: postTransaction_def)
next
  assume a: "lastConfirmedBlock s = Some lcb
      \<and> map (\<lambda>w. balanceOf E lcb (Some (address_w w))) (wallet s) = map (\<lambda>n. ofInt (int n)) bs
      \<and> map amount outs = map (\<lambda>n. ofInt (int n)) as \<and> f = ofInt (int fn)
      \<and> sum_list as + fn < 2 ^ 53 \<and> sum_list bs < sum_list as + fn"
  then have lc: "lastConfirmedBlock s = Some lcb"
    and mb: "map (\<lambda>w. balanceOf E lcb (Some (address_w w))) (wallet s) = map (\<lambda>n. ofInt (int n)) bs"
    and ma: "map amount outs = map (\<lambda>n. ofInt (int n)) as"
    and ff: "f = ofInt (int fn)"
    and b1: "sum_list as + fn < 2 ^ 53"
    and b2: "sum_list bs < sum_list as + fn"
    by blast+
  from b1 have bound: "int (sum_list as) + int fn < 2 ^ 53"
    by (metis of_nat_add of_nat_less_iff of_nat_numeral of_nat_power)
  from b1 b2 have sb: "sum_list bs < 2 ^ 53" and sa: "sum_list as < 2 ^ 53" by simp_all
  from lc mb sb have bal: "getConfirmedBalance E s = Inr (ofInt (int (sum_list bs)))"
    by (rule balance_exact)
  from ma sa have t: "foldl (\<lambda>t out. jsAdd t (amount out)) (ofInt 0) outs = ofInt (int (sum_list as))"
    by (rule sum_exact0)
  have "jsAdd (ofInt (int (sum_list as))) (ofInt (int fn)) = ofInt (int (sum_list as) + int fn)"
    using bound by (intro jsAdd_ofInt) simp_all
  then have total: "jsAdd (foldl (\<lambda>t out. jsAdd t (amount out)) (ofInt 0) outs) f
      = ofInt (int (sum_list as) + int fn)"
    using ff t by simp
  from b2 have "int (sum_list bs) < int (sum_list as) + int fn" by linarith
  moreover from this bound
  have "\<bar>int (sum_list bs)\<bar> < 2 ^ 53" "\<bar>int (sum_list as) + int fn\<bar> < 2 ^ 53" by simp_all
  ultimately have "jsGt (ofInt (int (sum_list as) + int fn)) (ofInt (int (sum_list bs)))"
    by (simp add: jsGt_ofInt)
  with bal total show "postTransaction E s outs f = (s, Inl (Error ''Not enough money!''))"
    by (simp add: postTransaction_def)
qed

lemma toy_balance: "getConfirmedBalance toyEnv toyClient = Inr (ofInt 100)"
  by code_simp

theorem postTransaction_insufficient_funds_witness:
  "getConfirmedBalance toyEnv toyClient = Inr (ofInt 100)
   \<and> jsGt (jsAdd (foldl (\<lambda>t out. jsAdd t (amount out)) (ofInt 0) [\<lparr>amount = ofInt 140, address = ''B''\<rparr>])
             (ofInt 1)) (ofInt 100)
   \<and> lastConfirmedBlock toyClient = Some toyGenesis
   \<and> map (\<lambda>w. balanceOf toyEnv toyGenesis (Some (address_w w))) (wallet toyClient) = map (\<lambda>n. ofInt (int n)) [100]
   \<and> sum_list [140] + 1 < (2::nat) ^ 53 \<and> sum_list [100] < sum_list [140] + (1::nat)
   \<and> postTransaction toyEnv toyClient [\<lparr>amount = ofInt 140, address = ''B''\<rparr>] (ofInt 1)
       = (toyClient, Inl (Error ''Not enough money!''))"
proof -
  have 1: "jsGt (jsAdd (foldl (\<lambda>t out. jsAdd t (amount out)) (ofInt 0) [\<lparr>amount = ofInt 140, address = ''B''\<rparr>])
             (ofInt 1)) (ofInt 100)"
    by code_simp
  have 2: "sum_list [140] + 1 < (2::nat) ^ 53 \<and> sum_list [100] < sum_list [140] + (1::nat)"
    by simp
  have 3: "map amount [\<lparr>amount = ofInt 140, address = ''B''\<rparr>] = map (\<lambda>n. ofInt (int n)) [140]"
    by simp
  have 4: "lastConfirmedBlock toyClient = Some toyGenesis"
    by (simp add: toyClient_def)
  have 5: "map (\<lambda>w. balanceOf toyEnv toyGenesis (Some (address_w w))) (wallet toyClient) = map (\<lambda>n. ofInt (int n)) [100]"
    by (simp add: toyClient_def toyEnv_def toyGenesis_def)
  from postTransaction_insufficient_funds [where E = toyEnv and s = toyClient and bal = "ofInt 100"
      and outs = "[\<lparr>amount = ofInt 140, address = ''B''\<rparr>]" and f = "ofInt 1" and lcb = toyGenesis
      and bs = "[100]" and as = "[140]" and fn = 1] toy_balance 1 2 3 4 5
  show ?thesis by simp
qed

text \<open>
  Claim C8 as stated fails where the sum is not a double. The wallet holds \<open>2 ^ 53\<close>, the
  amount asked for is \<open>2 ^ 53\<close> and the fee is 1: the sum \<open>2 ^ 53 + 1\<close> exceeds the balance,
  but the total that the code computes is \<open>2 ^ 53\<close>, which does not. The call returns a
  transaction, takes the slot out of the wallet, records the transaction as pending and
  broadcasts it.
\<close>

theorem postTransaction_rounded_total_counterexample:
  "getConfirmedBalance toyEnv toyRichClient = Inr (ofInt (2 ^ 53))
   \<and> (2::int) ^ 53 < sum_list [2 ^ 53] + 1
   \<and> jsAdd (foldl (\<lambda>t out. jsAdd t (amount out)) (ofInt 0) [\<lparr>amount = ofInt (2 ^ 53), address = ''B''\<rparr>])
        (ofInt 1) = ofInt (2 ^ 53)
   \<and> map_sum id outputs (snd (postTransaction toyEnv toyRichClient [\<lparr>amount = ofInt (2 ^ 53), address = ''B''\<rparr>] (ofInt 1)))
       = Inr [\<lparr>amount = ofInt (2 ^ 53), address = ''B''\<rparr>]
   \<and> wallet toyRichClient \<noteq> []
   \<and> wallet (fst (postTransaction toyEnv toyRichClient [\<lparr>amount = ofInt (2 ^ 53), address = ''B''\<rparr>] (ofInt 1))) = []
   \<and> length (pendingOutgoingTransactions
               (fst (postTransaction toyEnv toyRichClient [\<lparr>amount = ofInt (2 ^ 53), address = ''B''\<rparr>] (ofInt 1)))) = 1
   \<and> length (net (fst (postTransaction toyEnv toyRichClient [\<lparr>amount = ofInt (2 ^ 53), address = ''B''\<rparr>] (ofInt 1)))) = 1"
  by code_simp

text \<open>
  Claim C9. The loop guard of \<open>recoverFunds\<close> calls \<open>balanceOf(checkAddress)\<close> before any
  address has been generated: the first balance query of every call is made on
  \<open>undefined\<close>. Below, with \<open>maxAttempts = 1\<close> and no funds at the next address, the
  arguments of the three balance queries are \<open>undefined\<close>, then the address of the key
  drawn, twice (the test in the body and the next guard).
\<close>

theorem recoverFunds_first_query_undefined:
  "map_option snd (recoverFunds toyEnv toyClient 1) = Some (Inr [None, Some ''4b31'', Some ''4b31''])"
  by code_simp

lemma forEachM_rel:
  assumes refl: "\<And>s. R s s"
    and trans: "\<And>a b c. R a b \<Longrightarrow> R b c \<Longrightarrow> R a c"
    and step: "\<And>s x s' r. f s x = Some (s', r) \<Longrightarrow> R s s'"
  shows "forEachM f xs s = Some (s', r) \<Longrightarrow> R s s'"
proof (induction xs arbitrary: s)
  case Nil
  then show ?case by (simp add: refl)
next
  case (Cons x xs)
  from Cons.prems obtain s1 r1 where 1: "f s x = Some (s1, r1)"
    and 2: "(case r1 of Inl e \<Rightarrow> Some (s1, Inl e) | Inr _ \<Rightarrow> forEachM f xs s1) = Some (s', r)"
    by (auto simp: bind_eq_Some_conv)
  show ?case
  proof (cases r1)
    case (Inl e)
    with 2 have "s' = s1" by simp
    with step [OF 1] show ?thesis by simp
  next
    case (Inr u)
    with 2 have "forEachM f xs s1 = Some (s', r)" by simp
    from trans [OF step [OF 1] Cons.IH [OF this]] show ?thesis .
  qed
qed

lemma after_store_cases:
  assumes "Option.bind (storeBlock E s b)
                  (\<lambda>(s, r). case r of
                     Inl e \<Rightarrow> Some (s, Inl e)
                   | Inr _ \<Rightarrow>
                       (case takeUnstuck s b of
                          (unstuckBlocks, s) \<Rightarrow>
                            Option.bind (forEachM f unstuckBlocks s)
                              (\<lambda>(s, r). case r of
                                 Inl e \<Rightarrow> Some (s, Inl e)
                               | Inr _ \<Rightarrow> Some (s, Inr (Some b))))) = Some y"
  obtains (store_error) s1 e where "storeBlock E s b = Some (s1, Inl e)" "y = (s1, Inl e)"
    | (drained) s1 u s3 r3 where "storeBlock E s b = Some (s1, Inr u)"
        "forEachM f (fst (takeUnstuck s1 b)) (snd (takeUnstuck s1 b)) = Some (s3, r3)"
        "y = (s3, case r3 of Inl e \<Rightarrow> Inl e | Inr _ \<Rightarrow> Inr (Some b))"
proof -
  from assms obtain s1 r1 where st: "storeBlock E s b = Some (s1, r1)"
    and k: "(case r1 of
                     Inl e \<Rightarrow> Some (s1, Inl e)
                   | Inr _ \<Rightarrow>
                       (case takeUnstuck s1 b of
                          (unstuckBlocks, s) \<Rightarrow>
                            Option.bind (forEachM f unstuckBlocks s)
                              (\<lambda>(s, r). case r of
                                 Inl e \<Rightarrow> Some (s, Inl e)
                               | Inr _ \<Rightarrow> Some (s, Inr (Some b))))) = Some y"
    by (cases "storeBlock E s b") auto
  show thesis
  proof (cases r1)
    case (Inl e)
    with k have y': "y = (s1, Inl e)" by simp
    have st': "storeBlock E s b = Some (s1, Inl e)" using st Inl by simp
    show thesis by (rule store_error [OF st' y'])
  next
    case (Inr u)
    obtain us s2 where tu: "takeUnstuck s1 b = (us, s2)" by (cases "takeUnstuck s1 b")
    from k Inr tu have k2: "Option.bind (forEachM f us s2)
                              (\<lambda>(s, r). case r of
                                 Inl e \<Rightarrow> Some (s, Inl e)
                               | Inr _ \<Rightarrow> Some (s, Inr (Some b))) = Some y"
      by simp
    then obtain s3 r3 where fe: "forEachM f us s2 = Some (s3, r3)"
      and y: "(case r3 of
                                 Inl e \<Rightarrow> Some (s3, Inl e)
                               | Inr _ \<Rightarrow> Some (s3, Inr (Some b))) = Some y"
      by (cases "forEachM f us s2") auto
    from y have y': "y = (s3, case r3 of Inl e \<Rightarrow> Inl e | Inr _ \<Rightarrow> Inr (Some b))"
      by (cases r3) auto
    have st': "storeBlock E s b = Some (s1, Inr u)" using st Inr by simp
    have fe': "forEachM f (fst (takeUnstuck s1 b)) (snd (takeUnstuck s1 b)) = Some (s3, r3)"
      unfolding tu using fe by simp
    show thesis by (rule drained [OF st' fe' y'])
  qed
qed

lemma receiveBlock_body_cases:
  assumes body: "(if map_of (blocks s) (blockId block) \<noteq> None then Some (s, Inr None)
      else if \<not> hasValidProof E block \<and> \<not> isGenesisBlock E block
        then Some (s, case log s of Inl e \<Rightarrow> Inl e | Inr _ \<Rightarrow> Inr None)
      else
        (let prevBlock = map_of (blocks s) (prevBlockHash block) in
         if prevBlock = None \<and> \<not> isGenesisBlock E block
         then (case bufferOrphan s block of
                 (s, Inl e) \<Rightarrow> Some (s, Inl e)
               | (s, Inr _) \<Rightarrow> Some (s, Inr None))
         else
           (case (if isGenesisBlock E block then Some block
                  else (case prevBlock of
                          None \<Rightarrow> None
                        | Some prev \<Rightarrow> map_option (\<lambda>r. block\<lparr>rest := r\<rparr>) (rerun E block prev))) of
              None \<Rightarrow> Some (s, Inr None)
            | Some block \<Rightarrow>
                Option.bind (storeBlock E s block)
                  (\<lambda>(s, r). case r of
                     Inl e \<Rightarrow> Some (s, Inl e)
                   | Inr _ \<Rightarrow>
                       (case takeUnstuck s block of
                          (unstuckBlocks, s) \<Rightarrow>
                            Option.bind (forEachM f unstuckBlocks s)
                              (\<lambda>(s, r). case r of
                                 Inl e \<Rightarrow> Some (s, Inl e)
                               | Inr _ \<Rightarrow> Some (s, Inr (Some block)))))))) = Some y"
  obtains (unchanged) "fst y = s"
    | (orphan) "fst y = fst (bufferOrphan s block)"
    | (genesis) "map_of (blocks s) (blockId block) = None" "isGenesisBlock E block"
        "Option.bind (storeBlock E s block)
                  (\<lambda>(s, r). case r of
                     Inl e \<Rightarrow> Some (s, Inl e)
                   | Inr _ \<Rightarrow>
                       (case takeUnstuck s block of
                          (unstuckBlocks, s) \<Rightarrow>
                            Option.bind (forEachM f unstuckBlocks s)
                              (\<lambda>(s, r). case r of
                                 Inl e \<Rightarrow> Some (s, Inl e)
                               | Inr _ \<Rightarrow> Some (s, Inr (Some block))))) = Some y"
    | (rerun_ok) prev r where "map_of (blocks s) (blockId block) = None" "hasValidProof E block"
        "\<not> isGenesisBlock E block"
        "map_of (blocks s) (prevBlockHash block) = Some prev" "rerun E block prev = Some r"
        "Option.bind (storeBlock E s (block\<lparr>rest := r\<rparr>))
                  (\<lambda>(s, r'). case r' of
                     Inl e \<Rightarrow> Some (s, Inl e)
                   | Inr _ \<Rightarrow>
                       (case takeUnstuck s (block\<lparr>rest := r\<rparr>) of
                          (unstuckBlocks, s) \<Rightarrow>
                            Option.bind (forEachM f unstuckBlocks s)
                              (\<lambda>(s, r'). case r' of
                                 Inl e \<Rightarrow> Some (s, Inl e)
                               | Inr _ \<Rightarrow> Some (s, Inr (Some (block\<lparr>rest := r\<rparr>)))))) = Some y"
proof (cases "map_of (blocks s) (blockId block) \<noteq> None")
  case True
  with body have "fst y = s" by auto
  then show thesis by (rule unchanged)
next
  case False
  then have nk: "map_of (blocks s) (blockId block) = None" by simp
  show thesis
  proof (cases "\<not> hasValidProof E block \<and> \<not> isGenesisBlock E block")
    case True
    with body nk have "fst y = s" by auto
    then show thesis by (rule unchanged)
  next
    case vp: False
    show thesis
    proof (cases "isGenesisBlock E block")
      case True
      with body nk have "Option.bind (storeBlock E s block)
                  (\<lambda>(s, r). case r of
                     Inl e \<Rightarrow> Some (s, Inl e)
                   | Inr _ \<Rightarrow>
                       (case takeUnstuck s block of
                          (unstuckBlocks, s) \<Rightarrow>
                            Option.bind (forEachM f unstuckBlocks s)
                              (\<lambda>(s, r). case r of
                                 Inl e \<Rightarrow> Some (s, Inl e)
                               | Inr _ \<Rightarrow> Some (s, Inr (Some block))))) = Some y"
        by (simp add: Let_def)
      with nk True show thesis by (intro genesis)
    next
      case ng: False
      with vp have hv: "hasValidProof E block" by simp
      show thesis
      proof (cases "map_of (blocks s) (prevBlockHash block)")
        case None
        obtain s1 r1 where bo: "bufferOrphan s block = (s1, r1)" by (cases "bufferOrphan s block")
        from body nk ng hv None bo have "fst y = s1"
          by (cases r1) (auto simp: Let_def)
        with bo have "fst y = fst (bufferOrphan s block)" by simp
        then show thesis by (rule orphan)
      next
        case (Some prev)
        show thesis
        proof (cases "rerun E block prev")
          case None
          with body nk ng hv Some have "fst y = s" by (auto simp: Let_def)
          then show thesis by (rule unchanged)
        next
          case r: (Some r)
          with body nk ng hv Some have "Option.bind (storeBlock E s (block\<lparr>rest := r\<rparr>))
                  (\<lambda>(s, r'). case r' of
                     Inl e \<Rightarrow> Some (s, Inl e)
                   | Inr _ \<Rightarrow>
                       (case takeUnstuck s (block\<lparr>rest := r\<rparr>) of
                          (unstuckBlocks, s) \<Rightarrow>
                            Option.bind (forEachM f unstuckBlocks s)
                              (\<lambda>(s, r'). case r' of
                                 Inl e \<Rightarrow> Some (s, Inl e)
                               | Inr _ \<Rightarrow> Some (s, Inr (Some (block\<lparr>rest := r\<rparr>)))))) = Some y"
            by (simp add: Let_def)
          with nk hv ng Some r show thesis by (intro rerun_ok)
        qed
      qed
    qed
  qed
qed

lemma after_store_rel:
  assumes refl: "\<And>s. R s s"
    and trans: "\<And>a b c. R a b \<Longrightarrow> R b c \<Longrightarrow> R a c"
    and store: "\<And>s b s' r. storeBlock E s b = Some (s', r) \<Longrightarrow> R s s'"
    and unstuck: "\<And>s b. R s (snd (takeUnstuck s b))"
    and ih: "\<And>s0 b0 s1 r1. f s0 b0 = Some (s1, r1) \<Longrightarrow> R s0 s1"
    and run: "Option.bind (storeBlock E s b)
                  (\<lambda>(s, r). case r of
                     Inl e \<Rightarrow> Some (s, Inl e)
                   | Inr _ \<Rightarrow>
                       (case takeUnstuck s b of
                          (unstuckBlocks, s) \<Rightarrow>
                            Option.bind (forEachM f unstuckBlocks s)
                              (\<lambda>(s, r). case r of
                                 Inl e \<Rightarrow> Some (s, Inl e)
                               | Inr _ \<Rightarrow> Some (s, Inr (Some b))))) = Some y"
  shows "R s (fst y)"
  using run
proof (cases rule: after_store_cases)
  case (store_error s1 e)
  with store [of s b s1 "Inl e"] show ?thesis by simp
next
  case (drained s1 u s3 r3)
  have R1: "R s s1" using drained(1) by (rule store)
  have R2: "R s1 (snd (takeUnstuck s1 b))" by (rule unstuck)
  have R3: "R (snd (takeUnstuck s1 b)) s3"
  proof (rule forEachM_rel [where R = R and f = f])
    show "R x x" for x by (rule refl)
    show "R x y \<Longrightarrow> R y z \<Longrightarrow> R x z" for x y z by (rule trans)
    show "f s0 b0 = Some (s1, r1) \<Longrightarrow> R s0 s1" for s0 b0 s1 r1 by (rule ih)
    show "forEachM f (fst (takeUnstuck s1 b)) (snd (takeUnstuck s1 b)) = Some (s3, r3)"
      by (rule drained(2))
  qed
  from trans [OF R1 trans [OF R2 R3]] drained(3) show ?thesis by simp
qed

lemma receiveBlock_rel:
  assumes refl: "\<And>s. R s s"
    and trans: "\<And>a b c. R a b \<Longrightarrow> R b c \<Longrightarrow> R a c"
    and orphan: "\<And>s b. R s (fst (bufferOrphan s b))"
    and store: "\<And>s b s' r. storeBlock E s b = Some (s', r) \<Longrightarrow> R s s'"
    and unstuck: "\<And>s b. R s (snd (takeUnstuck s b))"
    and run: "receiveBlock E s block = Some (s', r)"
  shows "R s s'"
proof -
  have "E = E \<longrightarrow> R s (fst (s', r))"
  proof (rule receiveBlock.raw_induct [where P = "\<lambda>E' s block y. E' = E \<longrightarrow> R s (fst y)", OF _ run])
    fix rb E' s block y
    assume ih0: "\<And>E0 s0 b0 y0. rb E0 s0 b0 = Some y0 \<Longrightarrow> E0 = E \<longrightarrow> R s0 (fst y0)"
      and body: "(if map_of (blocks s) (blockId block) \<noteq> None then Some (s, Inr None)
      else if \<not> hasValidProof E' block \<and> \<not> isGenesisBlock E' block
        then Some (s, case log s of Inl e \<Rightarrow> Inl e | Inr _ \<Rightarrow> Inr None)
      else
        (let prevBlock = map_of (blocks s) (prevBlockHash block) in
         if prevBlock = None \<and> \<not> isGenesisBlock E' block
         then (case bufferOrphan s block of
                 (s, Inl e) \<Rightarrow> Some (s, Inl e)
               | (s, Inr _) \<Rightarrow> Some (s, Inr None))
         else
           (case (if isGenesisBlock E' block then Some block
                  else (case prevBlock of
                          None \<Rightarrow> None
                        | Some prev \<Rightarrow> map_option (\<lambda>r. block\<lparr>rest := r\<rparr>) (rerun E' block prev))) of
              None \<Rightarrow> Some (s, Inr None)
            | Some block \<Rightarrow>
                Option.bind (storeBlock E' s block)
                  (\<lambda>(s, r). case r of
                     Inl e \<Rightarrow> Some (s, Inl e)
                   | Inr _ \<Rightarrow>
                       (case takeUnstuck s block of
                          (unstuckBlocks, s) \<Rightarrow>
                            Option.bind (forEachM (processUnstuck (rb E')) unstuckBlocks s)
                              (\<lambda>(s, r). case r of
                                 Inl e \<Rightarrow> Some (s, Inl e)
                               | Inr _ \<Rightarrow> Some (s, Inr (Some block)))))))) = Some y"
    show "E' = E \<longrightarrow> R s (fst y)"
    proof
      assume E: "E' = E"
      have ih: "processUnstuck (rb E) s0 b0 = Some (s1, r1) \<Longrightarrow> R s0 s1" for s0 b0 s1 r1
      proof (cases "log s0")
        case (Inl e)
        assume "processUnstuck (rb E) s0 b0 = Some (s1, r1)"
        with Inl have "s1 = s0" by (simp add: processUnstuck_def)
        then show ?thesis by (simp add: refl)
      next
        case (Inr u)
        assume "processUnstuck (rb E) s0 b0 = Some (s1, r1)"
        with Inr have "rb E s0 b0 = Some (s1, r1)" by (simp add: processUnstuck_def)
        from ih0 [OF this] show ?thesis by simp
      qed
      from body show "R s (fst y)"
      proof (cases rule: receiveBlock_body_cases)
        case unchanged
        then show ?thesis by (simp add: refl)
      next
        case orphan
        then show ?thesis by (simp add: assms(3))
      next
        case genesis
        show ?thesis
        proof (rule after_store_rel [where R = R and f = "processUnstuck (rb E)" and E = E])
          show "R x x" for x by (rule refl)
          show "R x y \<Longrightarrow> R y z \<Longrightarrow> R x z" for x y z by (rule trans)
          show "storeBlock E s0 b0 = Some (s1, r1) \<Longrightarrow> R s0 s1" for s0 b0 s1 r1 by (rule store)
          show "R s0 (snd (takeUnstuck s0 b0))" for s0 b0 by (rule unstuck)
          show "processUnstuck (rb E) s0 b0 = Some (s1, r1) \<Longrightarrow> R s0 s1" for s0 b0 s1 r1 by (rule ih)
        qed (rule genesis(3) [unfolded E])
      next
        case (rerun_ok prev r)
        show ?thesis
        proof (rule after_store_rel [where R = R and f = "processUnstuck (rb E)" and E = E])
          show "R x x" for x by (rule refl)
          show "R x y \<Longrightarrow> R y z \<Longrightarrow> R x z" for x y z by (rule trans)
          show "storeBlock E s0 b0 = Some (s1, r1) \<Longrightarrow> R s0 s1" for s0 b0 s1 r1 by (rule store)
          show "R s0 (snd (takeUnstuck s0 b0))" for s0 b0 by (rule unstuck)
          show "processUnstuck (rb E) s0 b0 = Some (s1, r1) \<Longrightarrow> R s0 s1" for s0 b0 s1 r1 by (rule ih)
        qed (rule rerun_ok(6) [unfolded E])
      qed
    qed
  qed
  then show ?thesis by simp
qed

lemma setLastConfirmed_keeps:
  assumes "setLastConfirmed E s = Some (s', r)"
  shows "lastBlock s' = lastBlock s \<and> blocks s' = blocks s \<and> pendingBlocks s' = pendingBlocks s
    \<and> wallet s' = wallet s \<and> net s' = net s"
  using assms
  by (auto simp: setLastConfirmed_def Let_def split: option.splits sum.splits)

lemma storeBlock_blocks:
  assumes "storeBlock E s b = Some (s', r)"
  shows "blocks s' = AList.update (blockId b) b (blocks s) \<and> pendingBlocks s' = pendingBlocks s"
proof (cases "lastBlock s")
  case None
  with assms show ?thesis by (auto simp: storeBlock_def Let_def)
next
  case (Some h)
  show ?thesis
  proof (cases "chainLength h < chainLength b")
    case True
    with assms Some have "setLastConfirmed E (s\<lparr>blocks := AList.update (blockId b) b (blocks s), lastBlock := Some b\<rparr>) = Some (s', r)"
      by (simp add: storeBlock_def Let_def)
    from setLastConfirmed_keeps [OF this] show ?thesis by simp
  next
    case False
    with assms Some show ?thesis by (auto simp: storeBlock_def Let_def)
  qed
qed

lemma storeBlock_head:
  assumes "storeBlock E s b = Some (s', r)" and "lastBlock s = Some h"
  shows "lastBlock s' = (if chainLength h < chainLength b then Some b else Some h)"
proof (cases "chainLength h < chainLength b")
  case True
  with assms have "setLastConfirmed E (s\<lparr>blocks := AList.update (blockId b) b (blocks s), lastBlock := Some b\<rparr>) = Some (s', r)"
    by (simp add: storeBlock_def Let_def)
  from setLastConfirmed_keeps [OF this] True show ?thesis by simp
next
  case False
  with assms show ?thesis by (auto simp: storeBlock_def Let_def)
qed

lemma bufferOrphan_keeps:
  "lastBlock (fst (bufferOrphan s b)) = lastBlock s \<and> blocks (fst (bufferOrphan s b)) = blocks s"
  by (simp add: bufferOrphan_def Let_def requestMissingBlock_def split: sum.splits option.splits)

lemma takeUnstuck_keeps:
  "lastBlock (snd (takeUnstuck s b)) = lastBlock s \<and> blocks (snd (takeUnstuck s b)) = blocks s"
  by (simp add: takeUnstuck_def Let_def)

lemma headAdvances_refl: "headAdvances a a"
  by (simp add: headAdvances_def split: option.splits)

lemma headAdvances_trans: "headAdvances a b \<Longrightarrow> headAdvances b c \<Longrightarrow> headAdvances a c"
  by (auto simp: headAdvances_def split: option.splits)

lemma receiveBlock_head:
  assumes "receiveBlock E s block = Some (s', r)"
  shows "headAdvances (lastBlock s) (lastBlock s')"
proof (rule receiveBlock_rel [where R = "\<lambda>s s'. headAdvances (lastBlock s) (lastBlock s')", OF _ _ _ _ _ assms])
  show "headAdvances (lastBlock s) (lastBlock s)" for s :: "'a client"
    by (rule headAdvances_refl)
  show "headAdvances (lastBlock a) (lastBlock b) \<Longrightarrow> headAdvances (lastBlock b) (lastBlock c)
      \<Longrightarrow> headAdvances (lastBlock a) (lastBlock c)" for a b c :: "'a client"
    by (rule headAdvances_trans)
  show "headAdvances (lastBlock s) (lastBlock (fst (bufferOrphan s b)))" for s :: "'a client" and b
    by (simp add: bufferOrphan_keeps headAdvances_refl)
  show "headAdvances (lastBlock s) (lastBlock (snd (takeUnstuck s b)))" for s :: "'a client" and b
    by (simp add: takeUnstuck_keeps headAdvances_refl)
  show "headAdvances (lastBlock s) (lastBlock s')" if "storeBlock E s b = Some (s', r)"
    for s s' :: "'a client" and b r
  proof (cases "lastBlock s")
    case None
    then show ?thesis by (simp add: headAdvances_def)
  next
    case (Some h)
    from storeBlock_head [OF that Some] Some show ?thesis
      by (simp add: headAdvances_def)
  qed
qed

lemma chainStored_parent:
  assumes "chainStored bs" "map_of bs k = Some b" "0 < chainLength b"
  obtains p where "map_of bs (prevBlockHash b) = Some p" "chainLength p < chainLength b"
proof -
  from assms(2) have "(k, b) \<in> set bs" by (rule map_of_SomeD)
  with assms(1) have "chainLength b \<le> 0 \<or>
      (case map_of bs (prevBlockHash b) of None \<Rightarrow> False | Some p \<Rightarrow> chainLength p < chainLength b)"
    by (auto simp: chainStored_def list_all_iff)
  with assms(3) show thesis
    by (cases "map_of bs (prevBlockHash b)") (auto intro: that)
qed

lemma walkBack_total:
  assumes cs: "chainStored bs" and h: "0 \<le> h"
  shows "map_of bs k = Some b \<Longrightarrow> \<exists>c. walkBack bs h b = Some (Inr c)"
proof (induction "nat (chainLength b)" arbitrary: b k rule: less_induct)
  case less
  show ?case
  proof (cases "h < chainLength b")
    case True
    with h have pos: "0 < chainLength b" by simp
    from chainStored_parent [OF cs less.prems pos]
    obtain p where p: "map_of bs (prevBlockHash b) = Some p" and lt: "chainLength p < chainLength b"
      by blast
    from lt pos have "nat (chainLength p) < nat (chainLength b)" by simp
    from less.hyps [OF this p] obtain c where "walkBack bs h p = Some (Inr c)" by blast
    with True p have "walkBack bs h b = Some (Inr c)"
      by (subst walkBack.simps) simp
    then show ?thesis by blast
  next
    case False
    then have "walkBack bs h b = Some (Inr b)"
      by (subst walkBack.simps) simp
    then show ?thesis by blast
  qed
qed

lemma walkBack_extend:
  assumes run: "walkBack bs h b = Some (Inr c)" and fresh: "map_of bs k = None"
  shows "walkBack (AList.update k v bs) h b = Some (Inr c)"
proof -
  have "bs = bs \<longrightarrow> (\<forall>c'. (Inr c :: error + _) = Inr c' \<longrightarrow> walkBack (AList.update k v bs) h b = Some (Inr c'))"
  proof (rule walkBack.raw_induct
      [where P = "\<lambda>bs0 h0 b0 y0. bs0 = bs \<longrightarrow> (\<forall>c'. y0 = Inr c' \<longrightarrow> walkBack (AList.update k v bs) h0 b0 = Some (Inr c'))",
        OF _ run])
    fix wb bs0 h0 and b0 :: "'a block" and y0
    assume ih: "\<And>bs1 h1 b1 y1. wb bs1 h1 b1 = Some y1 \<Longrightarrow>
        bs1 = bs \<longrightarrow> (\<forall>c. y1 = Inr c \<longrightarrow> walkBack (AList.update k v bs) h1 b1 = Some (Inr c))"
      and body: "(if h0 < chainLength b0
          then case map_of bs0 (prevBlockHash b0) of
                 None \<Rightarrow> Some (Inl TypeError)
               | Some prev \<Rightarrow> wb bs0 h0 prev
          else Some (Inr b0)) = Some y0"
    show "bs0 = bs \<longrightarrow> (\<forall>c. y0 = Inr c \<longrightarrow> walkBack (AList.update k v bs) h0 b0 = Some (Inr c))"
    proof (intro impI allI)
      fix c assume bs0: "bs0 = bs" and y0: "y0 = Inr c"
      show "walkBack (AList.update k v bs) h0 b0 = Some (Inr c)"
      proof (cases "h0 < chainLength b0")
        case True
        show ?thesis
        proof (cases "map_of bs (prevBlockHash b0)")
          case None
          with body True bs0 y0 show ?thesis by simp
        next
          case (Some prev)
          with fresh have ne: "prevBlockHash b0 \<noteq> k" by auto
          from body True bs0 Some have "wb bs h0 prev = Some y0" by simp
          from ih [OF this] y0 have "walkBack (AList.update k v bs) h0 prev = Some (Inr c)" by simp
          with True Some ne show ?thesis
            by (subst walkBack.simps) (simp add: update_conv')
        qed
      next
        case False
        with body y0 have "c = b0" by simp
        with False show ?thesis by (subst walkBack.simps) simp
      qed
    qed
  qed
  then show ?thesis by simp
qed

lemma storeBlock_ok:
  assumes fresh: "map_of (blocks s) (blockId b) = None"
    and par: "map_of (blocks s) (prevBlockHash b) = Some P"
    and head: "lastBlock s = Some h"
    and walk: "\<And>hh. 0 \<le> hh \<Longrightarrow> \<exists>c. walkBack (blocks s) hh P = Some (Inr c)"
  shows "\<exists>s'. storeBlock E s b = Some (s', Inr ())"
proof (cases "chainLength h < chainLength b")
  case False
  with head show ?thesis by (simp add: storeBlock_def Let_def)
next
  case True
  define hc where "hc = (if chainLength b - CONFIRMED_DEPTH E < 0 then 0 else chainLength b - CONFIRMED_DEPTH E)"
  have hc0: "0 \<le> hc" by (simp add: hc_def)
  define bs' where "bs' = AList.update (blockId b) b (blocks s)"
  from fresh par have ne: "prevBlockHash b \<noteq> blockId b" by auto
  then have par': "map_of bs' (prevBlockHash b) = Some P"
    using par by (simp add: bs'_def update_conv')
  from walk [OF hc0] obtain c where "walkBack (blocks s) hc P = Some (Inr c)" by blast
  from walkBack_extend [OF this fresh] have wP: "walkBack bs' hc P = Some (Inr c)"
    by (simp add: bs'_def)
  have "\<exists>c'. walkBack bs' hc b = Some (Inr c')"
  proof (cases "hc < chainLength b")
    case True
    with par' wP have "walkBack bs' hc b = Some (Inr c)" by (subst walkBack.simps) simp
    then show ?thesis by blast
  next
    case False
    then have "walkBack bs' hc b = Some (Inr b)" by (subst walkBack.simps) simp
    then show ?thesis by blast
  qed
  then obtain c' where "walkBack bs' hc b = Some (Inr c')" by blast
  then have "\<exists>s'. setLastConfirmed E (s\<lparr>blocks := bs', lastBlock := Some b\<rparr>) = Some (s', Inr ())"
    by (simp add: setLastConfirmed_def Let_def hc_def)
  with True head show ?thesis
    by (simp add: storeBlock_def Let_def bs'_def)
qed

lemma receiveBlock_accept:
  assumes fresh: "map_of (blocks s) (blockId b) = None"
    and vp: "hasValidProof E b" and ng: "\<not> isGenesisBlock E b"
    and par: "map_of (blocks s) (prevBlockHash b) = Some P"
    and rr: "rerun E b P = Some r"
    and head: "lastBlock s = Some h"
    and nop: "map_of (pendingBlocks s) (blockId b) = None"
    and walk: "\<And>hh. 0 \<le> hh \<Longrightarrow> \<exists>c. walkBack (blocks s) hh P = Some (Inr c)"
  shows "\<exists>s'. receiveBlock E s b = Some (s', Inr (Some (b\<lparr>rest := r\<rparr>)))
      \<and> blocks s' = AList.update (blockId b) (b\<lparr>rest := r\<rparr>) (blocks s)
      \<and> lastBlock s' = (if chainLength h < chainLength b then Some (b\<lparr>rest := r\<rparr>) else Some h)
      \<and> pendingBlocks s' = AList.delete (blockId b) (pendingBlocks s)"
proof -
  define b' where "b' = b\<lparr>rest := r\<rparr>"
  have f': "map_of (blocks s) (blockId b') = None" and p': "map_of (blocks s) (prevBlockHash b') = Some P"
    using fresh par by (simp_all add: b'_def)
  from storeBlock_ok [OF f' p' head walk] obtain s1 where st: "storeBlock E s b' = Some (s1, Inr ())"
    by blast
  from storeBlock_blocks [OF st] storeBlock_head [OF st head]
  have b1: "blocks s1 = AList.update (blockId b) b' (blocks s)"
    and p1: "pendingBlocks s1 = pendingBlocks s"
    and h1: "lastBlock s1 = (if chainLength h < chainLength b then Some b' else Some h)"
    by (simp_all add: b'_def)
  define s2 where "s2 = s1\<lparr>pendingBlocks := AList.delete (blockId b) (pendingBlocks s1)\<rparr>"
  have tu: "takeUnstuck s1 b' = ([], s2)"
    using nop by (simp add: takeUnstuck_def Let_def p1 b'_def s2_def)
  have "receiveBlock E s b = Some (s2, Inr (Some b'))"
    by (subst receiveBlock.simps)
      (simp add: fresh vp ng par rr Let_def b'_def [symmetric] st tu)
  moreover have "blocks s2 = AList.update (blockId b) b' (blocks s)"
    by (simp add: s2_def b1)
  moreover have "lastBlock s2 = (if chainLength h < chainLength b then Some b' else Some h)"
    by (simp add: s2_def h1)
  moreover have "pendingBlocks s2 = AList.delete (blockId b) (pendingBlocks s)"
    by (simp add: s2_def p1)
  ultimately show ?thesis unfolding b'_def by blast
qed

lemma toy_receive_A: "receiveBlock toyEnv toyClient toyBlockA = Some (toyClientA, Inr (Some toyBlockA'))"
  by code_simp

lemma toy_receive_orphan: "receiveBlock toyEnv toyClient toyOrphan = Some (toyClientOrphan, Inr None)"
  by code_simp

lemma toy_receive_orphan_copy:
  "receiveBlock toyEnv toyClientOrphan toyOrphanCopy =
     Some (toyClientOrphan\<lparr>pendingBlocks := [(''C'', [toyOrphan, toyOrphanCopy])]\<rparr>, Inr None)"
  by code_simp

lemma toy_receive_A_copy:
  "receiveBlock toyEnv toyClientA (toyBlockA\<lparr>objRef := 5\<rparr>) = Some (toyClientA, Inr None)"
  by code_simp

text \<open>
  Claim C7. The test for a block received previously looks at \<open>blocks\<close> only, and the
  orphans are kept in a Set of Block objects. The orphan 'D' (parent 'C' unknown) is
  delivered twice, as two Block objects built from the same message: after the first
  delivery the orphan set of 'C' holds one block, after the second it holds two, and the
  state is not the state after one delivery. A second object for the stored block 'A'
  is ignored, as the comment in the source says of every block received previously.
\<close>

theorem receiveBlock_orphan_buffered_twice:
  "blockId toyOrphanCopy = blockId toyOrphan
   \<and> receiveBlock toyEnv toyClient toyOrphan = Some (toyClientOrphan, Inr None)
   \<and> receiveBlock toyEnv toyClientOrphan toyOrphanCopy =
       Some (toyClientOrphan\<lparr>pendingBlocks := [(''C'', [toyOrphan, toyOrphanCopy])]\<rparr>, Inr None)
   \<and> pendingBlocks (toyClientOrphan\<lparr>pendingBlocks := [(''C'', [toyOrphan, toyOrphanCopy])]\<rparr>)
       \<noteq> pendingBlocks toyClientOrphan
   \<and> receiveBlock toyEnv toyClient toyBlockA = Some (toyClientA, Inr (Some toyBlockA'))
   \<and> receiveBlock toyEnv toyClientA (toyBlockA\<lparr>objRef := 5\<rparr>) = Some (toyClientA, Inr None)"
proof -
  have 1: "blockId toyOrphanCopy = blockId toyOrphan"
    by (simp add: toyOrphanCopy_def)
  have 2: "pendingBlocks (toyClientOrphan\<lparr>pendingBlocks := [(''C'', [toyOrphan, toyOrphanCopy])]\<rparr>)
       \<noteq> pendingBlocks toyClientOrphan"
    by (simp add: toyClientOrphan_def)
  from 1 2 toy_receive_orphan toy_receive_orphan_copy toy_receive_A toy_receive_A_copy
  show ?thesis by simp
qed

lemma two_blocks_in_order:
  assumes freshX: "map_of (blocks s) (blockId X) = None"
    and freshY: "map_of (blocks s) (blockId Y) = None"
    and ne: "blockId X \<noteq> blockId Y"
    and vpX: "hasValidProof E X" and vpY: "hasValidProof E Y"
    and ngX: "\<not> isGenesisBlock E X" and ngY: "\<not> isGenesisBlock E Y"
    and parX: "map_of (blocks s) (prevBlockHash X) = Some P"
    and parY: "map_of (blocks s) (prevBlockHash Y) = Some P"
    and rrX: "rerun E X P = Some rx" and rrY: "rerun E Y P = Some ry"
    and head: "lastBlock s = Some h"
    and nopX: "map_of (pendingBlocks s) (blockId X) = None"
    and nopY: "map_of (pendingBlocks s) (blockId Y) = None"
    and cs: "chainStored (blocks s)"
  shows "\<exists>s1 s2. receiveBlock E s X = Some (s1, Inr (Some (X\<lparr>rest := rx\<rparr>)))
      \<and> receiveBlock E s1 Y = Some (s2, Inr (Some (Y\<lparr>rest := ry\<rparr>)))
      \<and> lastBlock s2 =
          (let h1 = (if chainLength h < chainLength X then X\<lparr>rest := rx\<rparr> else h)
           in if chainLength h1 < chainLength Y then Some (Y\<lparr>rest := ry\<rparr>) else Some h1)"
proof -
  have walk: "\<exists>c. walkBack (blocks s) hh P = Some (Inr c)" if "0 \<le> hh" for hh
    using walkBack_total [OF cs that parX] .
  from receiveBlock_accept [OF freshX vpX ngX parX rrX head nopX walk]
  obtain s1 where r1: "receiveBlock E s X = Some (s1, Inr (Some (X\<lparr>rest := rx\<rparr>)))"
    and b1: "blocks s1 = AList.update (blockId X) (X\<lparr>rest := rx\<rparr>) (blocks s)"
    and h1: "lastBlock s1 = (if chainLength h < chainLength X then Some (X\<lparr>rest := rx\<rparr>) else Some h)"
    and p1: "pendingBlocks s1 = AList.delete (blockId X) (pendingBlocks s)"
    by blast
  define hd1 where "hd1 = (if chainLength h < chainLength X then X\<lparr>rest := rx\<rparr> else h)"
  have head1: "lastBlock s1 = Some hd1" by (simp add: h1 hd1_def)
  from parY freshX have neP: "prevBlockHash Y \<noteq> blockId X" by auto
  have freshY1: "map_of (blocks s1) (blockId Y) = None"
    using freshY ne by (simp add: b1 update_conv')
  have parY1: "map_of (blocks s1) (prevBlockHash Y) = Some P"
    using parY neP by (simp add: b1 update_conv')
  have nopY1: "map_of (pendingBlocks s1) (blockId Y) = None"
    using nopY by (simp add: p1 delete_conv')
  have walk1: "\<exists>c. walkBack (blocks s1) hh P = Some (Inr c)" if "0 \<le> hh" for hh
  proof -
    from walk [OF that] obtain c where "walkBack (blocks s) hh P = Some (Inr c)" by blast
    from walkBack_extend [OF this freshX] show ?thesis by (auto simp: b1)
  qed
  from receiveBlock_accept [OF freshY1 vpY ngY parY1 rrY head1 nopY1 walk1]
  obtain s2 where r2: "receiveBlock E s1 Y = Some (s2, Inr (Some (Y\<lparr>rest := ry\<rparr>)))"
    and h2: "lastBlock s2 = (if chainLength hd1 < chainLength Y then Some (Y\<lparr>rest := ry\<rparr>) else Some hd1)"
    by blast
  from r1 r2 h2 show ?thesis by (auto simp: hd1_def Let_def)
qed

text \<open>
  Claim C6, as corrected. Whatever \<open>receiveBlock\<close> does (the recursive calls on unstuck
  orphans included), the head afterwards is the head before or a block with a strictly
  greater chainLength: a block of equal chainLength never displaces the head. So, for
  two blocks \<open>A\<close> and \<open>B\<close> with the same stored parent, both with a valid proof and a
  successful rerun, chainLength \<open>L\<close> and \<open>L + 1\<close>, not yet known and with no orphans
  waiting for them, received by a node whose head is not longer than \<open>L\<close> and whose
  stored blocks link back to a block of chainLength 0: both deliveries return the stored
  block, and the head is \<open>B\<close> in either order.
\<close>

theorem receiveBlock_longest_chain:
  "(receiveBlock E s block = Some (s', r) \<and> lastBlock s = Some h \<longrightarrow>
      (\<exists>h'. lastBlock s' = Some h' \<and> (h' = h \<or> chainLength h < chainLength h')))
   \<and> (map_of (blocks s) (blockId A) = None \<and> map_of (blocks s) (blockId B) = None
        \<and> blockId A \<noteq> blockId B
        \<and> hasValidProof E A \<and> hasValidProof E B \<and> \<not> isGenesisBlock E A \<and> \<not> isGenesisBlock E B
        \<and> map_of (blocks s) (prevBlockHash A) = Some P \<and> prevBlockHash B = prevBlockHash A
        \<and> rerun E A P = Some ra \<and> rerun E B P = Some rb
        \<and> chainLength B = chainLength A + 1
        \<and> lastBlock s = Some h \<and> chainLength h \<le> chainLength A
        \<and> map_of (pendingBlocks s) (blockId A) = None \<and> map_of (pendingBlocks s) (blockId B) = None
        \<and> chainStored (blocks s) \<longrightarrow>
      (\<exists>s1 s2 t1 t2.
          receiveBlock E s A = Some (s1, Inr (Some (A\<lparr>rest := ra\<rparr>)))
        \<and> receiveBlock E s1 B = Some (s2, Inr (Some (B\<lparr>rest := rb\<rparr>)))
        \<and> lastBlock s2 = Some (B\<lparr>rest := rb\<rparr>)
        \<and> receiveBlock E s B = Some (t1, Inr (Some (B\<lparr>rest := rb\<rparr>)))
        \<and> receiveBlock E t1 A = Some (t2, Inr (Some (A\<lparr>rest := ra\<rparr>)))
        \<and> lastBlock t2 = Some (B\<lparr>rest := rb\<rparr>)))"
proof (intro conjI impI)
  assume a: "receiveBlock E s block = Some (s', r) \<and> lastBlock s = Some h"
  then have "headAdvances (lastBlock s) (lastBlock s')"
    using receiveBlock_head [of E s block s' r] by simp
  with a show "\<exists>h'. lastBlock s' = Some h' \<and> (h' = h \<or> chainLength h < chainLength h')"
    by (cases "lastBlock s'") (auto simp: headAdvances_def)
next
  assume a: "map_of (blocks s) (blockId A) = None \<and> map_of (blocks s) (blockId B) = None
        \<and> blockId A \<noteq> blockId B
        \<and> hasValidProof E A \<and> hasValidProof E B \<and> \<not> isGenesisBlock E A \<and> \<not> isGenesisBlock E B
        \<and> map_of (blocks s) (prevBlockHash A) = Some P \<and> prevBlockHash B = prevBlockHash A
        \<and> rerun E A P = Some ra \<and> rerun E B P = Some rb
        \<and> chainLength B = chainLength A + 1
        \<and> lastBlock s = Some h \<and> chainLength h \<le> chainLength A
        \<and> map_of (pendingBlocks s) (blockId A) = None \<and> map_of (pendingBlocks s) (blockId B) = None
        \<and> chainStored (blocks s)"
  then have fA: "map_of (blocks s) (blockId A) = None" and fB: "map_of (blocks s) (blockId B) = None"
    and ne: "blockId A \<noteq> blockId B"
    and vA: "hasValidProof E A" and vB: "hasValidProof E B"
    and gA: "\<not> isGenesisBlock E A" and gB: "\<not> isGenesisBlock E B"
    and pA: "map_of (blocks s) (prevBlockHash A) = Some P"
    and pB: "map_of (blocks s) (prevBlockHash B) = Some P"
    and rA: "rerun E A P = Some ra" and rB: "rerun E B P = Some rb"
    and len: "chainLength B = chainLength A + 1"
    and hd: "lastBlock s = Some h" and hl: "chainLength h \<le> chainLength A"
    and nA: "map_of (pendingBlocks s) (blockId A) = None"
    and nB: "map_of (pendingBlocks s) (blockId B) = None"
    and cs: "chainStored (blocks s)"
    by simp_all
  from ne have ne': "blockId B \<noteq> blockId A" by (rule not_sym)
  from two_blocks_in_order [OF fA fB ne vA vB gA gB pA pB rA rB hd nA nB cs]
  obtain s1 s2 where 1: "receiveBlock E s A = Some (s1, Inr (Some (A\<lparr>rest := ra\<rparr>)))"
    and 2: "receiveBlock E s1 B = Some (s2, Inr (Some (B\<lparr>rest := rb\<rparr>)))"
    and 3: "lastBlock s2 =
          (let h1 = (if chainLength h < chainLength A then A\<lparr>rest := ra\<rparr> else h)
           in if chainLength h1 < chainLength B then Some (B\<lparr>rest := rb\<rparr>) else Some h1)"
    by blast
  from 3 len hl have e3: "lastBlock s2 = Some (B\<lparr>rest := rb\<rparr>)"
    by (simp add: Let_def)
  from two_blocks_in_order [OF fB fA ne' vB vA gB gA pB pA rB rA hd nB nA cs]
  obtain t1 t2 where 4: "receiveBlock E s B = Some (t1, Inr (Some (B\<lparr>rest := rb\<rparr>)))"
    and 5: "receiveBlock E t1 A = Some (t2, Inr (Some (A\<lparr>rest := ra\<rparr>)))"
    and 6: "lastBlock t2 =
          (let h1 = (if chainLength h < chainLength B then B\<lparr>rest := rb\<rparr> else h)
           in if chainLength h1 < chainLength A then Some (A\<lparr>rest := ra\<rparr>) else Some h1)"
    by blast
  from 6 len hl have e6: "lastBlock t2 = Some (B\<lparr>rest := rb\<rparr>)"
    by (simp add: Let_def)
  from 1 2 e3 4 5 e6 show "\<exists>s1 s2 t1 t2.
          receiveBlock E s A = Some (s1, Inr (Some (A\<lparr>rest := ra\<rparr>)))
        \<and> receiveBlock E s1 B = Some (s2, Inr (Some (B\<lparr>rest := rb\<rparr>)))
        \<and> lastBlock s2 = Some (B\<lparr>rest := rb\<rparr>)
        \<and> receiveBlock E s B = Some (t1, Inr (Some (B\<lparr>rest := rb\<rparr>)))
        \<and> receiveBlock E t1 A = Some (t2, Inr (Some (A\<lparr>rest := ra\<rparr>)))
        \<and> lastBlock t2 = Some (B\<lparr>rest := rb\<rparr>)"
    by blast
qed

lemma toy_long_A:
  "receiveBlock toyEnv toyLongClient toyBlockA =
     Some (toyLongClient\<lparr>blocks := blocks toyLongClient @ [(''A'', toyBlockA')]\<rparr>, Inr (Some toyBlockA'))"
  by code_simp

lemma toy_long_AB:
  "receiveBlock toyEnv (toyLongClient\<lparr>blocks := blocks toyLongClient @ [(''A'', toyBlockA')]\<rparr>) toyBlockB =
     Some (toyLongClient\<lparr>blocks := blocks toyLongClient @ [(''A'', toyBlockA'), (''B'', toyBlockB')]\<rparr>,
           Inr (Some toyBlockB'))"
  by code_simp

lemma toy_long_B:
  "receiveBlock toyEnv toyLongClient toyBlockB =
     Some (toyLongClient\<lparr>blocks := blocks toyLongClient @ [(''B'', toyBlockB')]\<rparr>, Inr (Some toyBlockB'))"
  by code_simp

lemma toy_long_BA:
  "receiveBlock toyEnv (toyLongClient\<lparr>blocks := blocks toyLongClient @ [(''B'', toyBlockB')]\<rparr>) toyBlockA =
     Some (toyLongClient\<lparr>blocks := blocks toyLongClient @ [(''B'', toyBlockB'), (''A'', toyBlockA')]\<rparr>,
           Inr (Some toyBlockA'))"
  by code_simp

lemma toy_waiting_A:
  "receiveBlock toyEnv toyWaitingClient toyBlockA =
     Some (toyClientA\<lparr>pendingBlocks := [(''B'', [toyChild])]\<rparr>, Inr (Some toyBlockA'))"
  by code_simp

lemma toy_waiting_AB:
  "receiveBlock toyEnv (toyClientA\<lparr>pendingBlocks := [(''B'', [toyChild])]\<rparr>) toyBlockB =
     Some (toyClient\<lparr>blocks := [(''G'', toyGenesis), (''A'', toyBlockA'), (''B'', toyBlockB'), (''E'', toyChild')],
                     lastBlock := Some toyChild',
                     lastConfirmedBlock := Some toyBlockB'\<rparr>,
           Inr (Some toyBlockB'))"
  by code_simp

text \<open>
  Claim C6 as stated fails on a node that already has a head as long as the longer
  block, and on a node that holds an orphan waiting for it. In both cases \<open>A\<close> and \<open>B\<close>
  are blocks on the genesis block with chainLength 1 and 2, both accepted. First, the
  head is 'H2' of chainLength 2: after \<open>A\<close> and \<open>B\<close>, in either order, the head is still
  'H2' (a block of equal chainLength does not displace it). Second, the orphan 'E' of
  chainLength 3 waits for \<open>B\<close>: storing \<open>B\<close> releases 'E', which becomes the head.
\<close>

theorem receiveBlock_longest_chain_counterexample:
  "chainLength toyBlockB = chainLength toyBlockA + 1
   \<and> prevBlockHash toyBlockB = prevBlockHash toyBlockA
   \<and> receiveBlock toyEnv toyLongClient toyBlockA =
       Some (toyLongClient\<lparr>blocks := blocks toyLongClient @ [(''A'', toyBlockA')]\<rparr>, Inr (Some toyBlockA'))
   \<and> receiveBlock toyEnv (toyLongClient\<lparr>blocks := blocks toyLongClient @ [(''A'', toyBlockA')]\<rparr>) toyBlockB =
       Some (toyLongClient\<lparr>blocks := blocks toyLongClient @ [(''A'', toyBlockA'), (''B'', toyBlockB')]\<rparr>,
             Inr (Some toyBlockB'))
   \<and> receiveBlock toyEnv toyLongClient toyBlockB =
       Some (toyLongClient\<lparr>blocks := blocks toyLongClient @ [(''B'', toyBlockB')]\<rparr>, Inr (Some toyBlockB'))
   \<and> receiveBlock toyEnv (toyLongClient\<lparr>blocks := blocks toyLongClient @ [(''B'', toyBlockB')]\<rparr>) toyBlockA =
       Some (toyLongClient\<lparr>blocks := blocks toyLongClient @ [(''B'', toyBlockB'), (''A'', toyBlockA')]\<rparr>,
             Inr (Some toyBlockA'))
   \<and> lastBlock toyLongClient = Some toyH2 \<and> toyH2 \<noteq> toyBlockB'
   \<and> receiveBlock toyEnv toyWaitingClient toyBlockA =
       Some (toyClientA\<lparr>pendingBlocks := [(''B'', [toyChild])]\<rparr>, Inr (Some toyBlockA'))
   \<and> receiveBlock toyEnv (toyClientA\<lparr>pendingBlocks := [(''B'', [toyChild])]\<rparr>) toyBlockB =
       Some (toyClient\<lparr>blocks := [(''G'', toyGenesis), (''A'', toyBlockA'), (''B'', toyBlockB'), (''E'', toyChild')],
                       lastBlock := Some toyChild',
                       lastConfirmedBlock := Some toyBlockB'\<rparr>,
             Inr (Some toyBlockB'))
   \<and> toyChild' \<noteq> toyBlockB'"
proof -
  have 1: "chainLength toyBlockB = chainLength toyBlockA + 1 \<and> prevBlockHash toyBlockB = prevBlockHash toyBlockA"
    by (simp add: toyBlockA_def toyBlockB_def)
  have 2: "lastBlock toyLongClient = Some toyH2 \<and> toyH2 \<noteq> toyBlockB' \<and> toyChild' \<noteq> toyBlockB'"
    by (simp add: toyLongClient_def toyH2_def toyBlockB'_def toyBlockB_def toyChild'_def toyChild_def)
  from 1 2 toy_long_A toy_long_AB toy_long_B toy_long_BA toy_waiting_A toy_waiting_AB
  show ?thesis by simp
qed

lemma toy_chainStored: "chainStored (blocks toyClient)"
  by (simp add: chainStored_def toyClient_def toyGenesis_def)

theorem receiveBlock_longest_chain_witness:
  "chainLength toyBlockB = chainLength toyBlockA + 1
   \<and> prevBlockHash toyBlockB = prevBlockHash toyBlockA
   \<and> lastBlock toyClient = Some toyGenesis \<and> chainLength toyGenesis \<le> chainLength toyBlockA
   \<and> receiveBlock toyEnv toyClient toyBlockA = Some (toyClientA, Inr (Some toyBlockA'))
   \<and> lastBlock toyClientA = Some toyBlockA' \<and> chainLength toyGenesis < chainLength toyBlockA'
   \<and> (\<exists>s1 s2 t1 t2.
          receiveBlock toyEnv toyClient toyBlockA = Some (s1, Inr (Some toyBlockA'))
        \<and> receiveBlock toyEnv s1 toyBlockB = Some (s2, Inr (Some toyBlockB'))
        \<and> lastBlock s2 = Some toyBlockB'
        \<and> receiveBlock toyEnv toyClient toyBlockB = Some (t1, Inr (Some toyBlockB'))
        \<and> receiveBlock toyEnv t1 toyBlockA = Some (t2, Inr (Some toyBlockA'))
        \<and> lastBlock t2 = Some toyBlockB')"
proof -
  have hyps: "map_of (blocks toyClient) (blockId toyBlockA) = None
      \<and> map_of (blocks toyClient) (blockId toyBlockB) = None
      \<and> blockId toyBlockA \<noteq> blockId toyBlockB
      \<and> hasValidProof toyEnv toyBlockA \<and> hasValidProof toyEnv toyBlockB
      \<and> \<not> isGenesisBlock toyEnv toyBlockA \<and> \<not> isGenesisBlock toyEnv toyBlockB
      \<and> map_of (blocks toyClient) (prevBlockHash toyBlockA) = Some toyGenesis
      \<and> prevBlockHash toyBlockB = prevBlockHash toyBlockA
      \<and> rerun toyEnv toyBlockA toyGenesis = Some (rest toyGenesis)
      \<and> rerun toyEnv toyBlockB toyGenesis = Some (rest toyGenesis)
      \<and> chainLength toyBlockB = chainLength toyBlockA + 1
      \<and> lastBlock toyClient = Some toyGenesis \<and> chainLength toyGenesis \<le> chainLength toyBlockA
      \<and> map_of (pendingBlocks toyClient) (blockId toyBlockA) = None
      \<and> map_of (pendingBlocks toyClient) (blockId toyBlockB) = None"
    by (simp add: toyClient_def toyBlockA_def toyBlockB_def toyEnv_def toyGenesis_def)
  have run: "receiveBlock toyEnv toyClient toyBlockA = Some (toyClientA, Inr (Some toyBlockA'))"
    by (rule toy_receive_A)
  have hA: "lastBlock toyClientA = Some toyBlockA'"
    by (simp add: toyClientA_def)
  have lt: "chainLength toyGenesis < chainLength toyBlockA'"
    by (simp add: toyGenesis_def toyBlockA'_def toyBlockA_def)
  from receiveBlock_longest_chain [where E = toyEnv and s = toyClient and block = toyBlockA
      and s' = toyClientA and r = "Inr (Some toyBlockA')" and h = toyGenesis and A = toyBlockA and B = toyBlockB
      and P = toyGenesis and ra = "rest toyGenesis" and rb = "rest toyGenesis"]
    hyps toy_chainStored
  have "\<exists>s1 s2 t1 t2.
          receiveBlock toyEnv toyClient toyBlockA = Some (s1, Inr (Some toyBlockA'))
        \<and> receiveBlock toyEnv s1 toyBlockB = Some (s2, Inr (Some toyBlockB'))
        \<and> lastBlock s2 = Some toyBlockB'
        \<and> receiveBlock toyEnv toyClient toyBlockB = Some (t1, Inr (Some toyBlockB'))
        \<and> receiveBlock toyEnv t1 toyBlockA = Some (t2, Inr (Some toyBlockA'))
        \<and> lastBlock t2 = Some toyBlockB'"
    unfolding toyBlockA'_def toyBlockB'_def by blast
  with hyps run hA lt show ?thesis by simp
qed

end
